theory Spec2Isabelle
  imports Complex_Main
begin

section \<open>The scores-ws example client (examples/client.py)\<close>

text \<open>
  The client is one coroutine, \<open>run\<close>, and the consumer \<open>process_scores\<close> that it starts
  as a task. Everything they do is input and output on a websocket, so the model is
  explicit state passing over a connection record. What the server and the network do is an
  input of the model: the frames the server puts on the wire, how many of them have
  arrived when the connection is handed to the client, how many events the consumer gets
  through before the caller cancels it, and how many further frames have reached the
  client when the disconnect notice is sent.
\<close>

subsection \<open>Exceptions and results\<close>

text \<open>
  The Python exceptions that the two coroutines can meet. \<open>KeyError\<close> carries the missing
  key. \<open>ConnectionClosedOK\<close> and \<open>ConnectionClosedError\<close> are the two subclasses of
  websockets' \<open>ConnectionClosed\<close>; \<open>OSError\<close> is a refused connection.
\<close>

datatype exn =
    CancelledError
  | ConnectionClosedOK
  | ConnectionClosedError
  | JSONDecodeError
  | KeyError string
  | TypeError
  | OSError

text \<open>
  A coroutine that does not return a value either raises or awaits for ever. Both are
  values of the model: \<open>Inl (Raise x)\<close> and \<open>Inl Hang\<close>; \<open>Inr v\<close> is a normal return.
\<close>

datatype stop = Raise exn | Hang

type_synonym 'a result = "stop + 'a"

subsection \<open>The connection\<close>

text \<open>
  A frame is what the server delivers: an application message, or the end of the
  connection (a normal close, or a failure).
\<close>

datatype frame = Message string | CloseOK | CloseError

text \<open>What the client has done on a connection, oldest first.\<close>

datatype action = Sent string | Received string | Closed

text \<open>
  \<open>buffered\<close> are the frames that have reached the client and were not read yet,
  \<open>wire\<close> the frames that will arrive later, both in the order the server sent them.
\<close>

record websocket =
  actions :: "action list"
  buffered :: "frame list"
  wire :: "frame list"

definition pending :: "websocket \<Rightarrow> frame list" where
  "pending ws = buffered ws @ wire ws"

definition sent :: "websocket \<Rightarrow> string list" where
  "sent ws = concat (map (\<lambda>a. case a of Sent m \<Rightarrow> [m] | _ \<Rightarrow> []) (actions ws))"

definition received :: "websocket \<Rightarrow> string list" where
  "received ws = concat (map (\<lambda>a. case a of Received m \<Rightarrow> [m] | _ \<Rightarrow> []) (actions ws))"

text \<open>The environment's step: \<open>n\<close> more frames arrive.\<close>

definition deliver :: "nat \<Rightarrow> websocket \<Rightarrow> websocket" where
  "deliver n ws = ws\<lparr>buffered := buffered ws @ take n (wire ws), wire := drop n (wire ws)\<rparr>"

text \<open>The close that has reached the client, if any, as the exception it becomes.\<close>

fun close_seen :: "frame list \<Rightarrow> exn option" where
  "close_seen [] = None"
| "close_seen (Message m # fs) = close_seen fs"
| "close_seen (CloseOK # fs) = Some ConnectionClosedOK"
| "close_seen (CloseError # fs) = Some ConnectionClosedError"

text \<open>
  \<open>connect(uri)\<close>: a refused connection raises \<open>OSError\<close>; an accepted one starts with
  nothing read and nothing sent. The server may send, or close, as soon as the opening
  handshake is done: \<open>early\<close> of its frames have reached the client when \<open>connect\<close> returns.
\<close>

definition connect :: "frame list option \<Rightarrow> nat \<Rightarrow> exn + websocket" where
  "connect server early =
     (case server of
        None \<Rightarrow> Inl OSError
      | Some fs \<Rightarrow> Inr (deliver early \<lparr>actions = [], buffered = [], wire = fs\<rparr>))"

text \<open>
  \<open>websocket.send(m)\<close> raises \<open>ConnectionClosed\<close> once the connection is closed, by the
  client or by a close that has arrived; otherwise the message goes out.
\<close>

definition send :: "string \<Rightarrow> websocket \<Rightarrow> unit result \<times> websocket" where
  "send m ws =
     (if Closed \<in> set (actions ws) then (Inl (Raise ConnectionClosedOK), ws)
      else case close_seen (buffered ws) of
             Some x \<Rightarrow> (Inl (Raise x), ws)
           | None \<Rightarrow> (Inr (), ws\<lparr>actions := actions ws @ [Sent m]\<rparr>))"

text \<open>
  \<open>websocket.recv()\<close> returns the oldest unread message, waiting for it when none has
  arrived yet; it raises when the next thing is the end of the connection, and never
  returns when the server stays silent with the connection open.
\<close>

definition recv :: "websocket \<Rightarrow> string result \<times> websocket" where
  "recv ws =
     (if Closed \<in> set (actions ws) then (Inl (Raise ConnectionClosedOK), ws)
      else let ws' = (if buffered ws = [] then deliver 1 ws else ws) in
        case buffered ws' of
          [] \<Rightarrow> (Inl Hang, ws')
        | Message m # fs \<Rightarrow> (Inr m, ws'\<lparr>actions := actions ws' @ [Received m], buffered := fs\<rparr>)
        | CloseOK # fs \<Rightarrow> (Inl (Raise ConnectionClosedOK), ws')
        | CloseError # fs \<Rightarrow> (Inl (Raise ConnectionClosedError), ws'))"

text \<open>\<open>websocket.close()\<close>, which does nothing on a connection the client has closed.\<close>

definition close :: "websocket \<Rightarrow> websocket" where
  "close ws = (if Closed \<in> set (actions ws) then ws else ws\<lparr>actions := actions ws @ [Closed]\<rparr>)"

subsection \<open>Decoded scores\<close>

text \<open>The Python values that \<open>json.loads\<close> returns.\<close>

datatype pyval =
    PyNone
  | PyBool bool
  | PyInt int
  | PyFloat real
  | PyStr string
  | PyList "pyval list"
  | PyDict "(string \<times> pyval) list"

text \<open>
  \<open>score[key]\<close> with a string key: a dict looks the key up and raises \<open>KeyError\<close> when it
  is missing; every other value raises \<open>TypeError\<close>. A dict is the list of its items, each
  key once.
\<close>

fun getitem :: "pyval \<Rightarrow> string \<Rightarrow> exn + pyval" where
  "getitem (PyDict kvs) k = (case map_of kvs k of None \<Rightarrow> Inl (KeyError k) | Some v \<Rightarrow> Inr v)"
| "getitem _ k = Inl TypeError"

text \<open>
  Lines 44 and 45: decode the event and format the line that is printed. \<open>loads\<close> is
  \<open>json.loads\<close> (\<open>None\<close> when it raises \<open>JSONDecodeError\<close>) and \<open>str\<close> is the text that an
  f-string gives a value; both belong to the Python library and are parameters here. The
  three fields are read from left to right.
\<close>

definition print_score ::
  "(string \<Rightarrow> pyval option) \<Rightarrow> (pyval \<Rightarrow> string) \<Rightarrow> string \<Rightarrow> exn + string" where
  "print_score loads str event =
     (case loads event of
        None \<Rightarrow> Inl JSONDecodeError
      | Some score \<Rightarrow>
          (case getitem score ''user_id'' of
             Inl x \<Rightarrow> Inl x
           | Inr user_id \<Rightarrow>
               (case getitem score ''pp'' of
                  Inl x \<Rightarrow> Inl x
                | Inr pp \<Rightarrow>
                    (case getitem score ''beatmap_id'' of
                       Inl x \<Rightarrow> Inl x
                     | Inr beatmap_id \<Rightarrow>
                         Inr (str user_id @ '' got '' @ str pp @ ''pp on '' @ str beatmap_id)))))"

subsection \<open>The consumer\<close>

text \<open>
  Lines 42 to 45, the \<open>async for\<close> loop. The state is the connection and the lines printed so
  far. \<open>cancel\<close> is what the caller does to the task: \<open>None\<close> when it never cancels it,
  \<open>Some n\<close> when it cancels it once \<open>n\<close> events are through, or earlier if the task is
  waiting on a silent connection at that time. The cancellation is thrown into the task
  at its only await, the read of the next message. The connection's iterator ends the
  loop on \<open>ConnectionClosedOK\<close> and lets every other exception through.
\<close>

function events_loop ::
  "(string \<Rightarrow> pyval option) \<Rightarrow> (pyval \<Rightarrow> string) \<Rightarrow> nat option \<Rightarrow> websocket \<Rightarrow> string list
     \<Rightarrow> unit result \<times> websocket \<times> string list" where
  "events_loop loads str cancel ws out =
     (if cancel = Some 0 then (Inl (Raise CancelledError), ws, out)
      else case recv ws of
          (Inl Hang, ws') \<Rightarrow>
            (if cancel = None then (Inl Hang, ws', out) else (Inl (Raise CancelledError), ws', out))
        | (Inl (Raise x), ws') \<Rightarrow>
            (if x = ConnectionClosedOK then (Inr (), ws', out) else (Inl (Raise x), ws', out))
        | (Inr event, ws') \<Rightarrow>
            (case print_score loads str event of
               Inl x \<Rightarrow> (Inl (Raise x), ws', out)
             | Inr line \<Rightarrow>
                 events_loop loads str (map_option (\<lambda>n. n - 1) cancel) ws' (out @ [line])))"
  by pat_completeness auto

termination
proof (relation "measure (\<lambda>(loads, str, cancel, ws, out). length (pending ws))")
  show "wf (measure (\<lambda>(loads, str, cancel, ws, out). length (pending ws)))"
    by simp
next
  fix loads :: "string \<Rightarrow> pyval option" and str :: "pyval \<Rightarrow> string"
    and cancel :: "nat option" and ws ws' :: websocket and out :: "string list"
    and r :: "string result" and event line :: string
  assume r: "(r, ws') = recv ws" "r = Inr event"
  define w where "w = (if buffered ws = [] then deliver 1 ws else ws)"
  have "pending w = pending ws"
    by (simp add: w_def pending_def deliver_def)
  moreover from r have "buffered w = Message event # buffered ws' \<and> wire ws' = wire w"
    by (auto simp: recv_def Let_def w_def split: if_splits list.splits frame.splits)
  then have "pending w = Message event # pending ws'"
    by (simp add: pending_def)
  ultimately have "pending ws = Message event # pending ws'"
    by simp
  then show "((loads, str, map_option (\<lambda>n. n - 1) cancel, ws', out @ [line]),
              (loads, str, cancel, ws, out))
             \<in> measure (\<lambda>(loads, str, cancel, ws, out). length (pending ws))"
    by simp
qed

text \<open>
  Lines 40 to 47: the loop inside \<open>try\<close>, and the handler that catches
  \<open>CancelledError\<close> only to raise it again.
\<close>

definition process_scores ::
  "(string \<Rightarrow> pyval option) \<Rightarrow> (pyval \<Rightarrow> string) \<Rightarrow> nat option \<Rightarrow> websocket \<Rightarrow> string list
     \<Rightarrow> unit result \<times> websocket \<times> string list" where
  "process_scores loads str cancel ws out =
     (case events_loop loads str cancel ws out of
        (Inl (Raise x), ws', out') \<Rightarrow>
          (if x = CancelledError then (Inl (Raise x), ws', out') else (Inl (Raise x), ws', out'))
      | (r, ws', out') \<Rightarrow> (r, ws', out'))"

subsection \<open>The main coroutine\<close>

text \<open>
  What \<open>run\<close> takes from outside: the two library functions, what the server does on the
  first and on the second connection (\<open>None\<close>: it refuses the connection), the number of
  frames that have arrived on each when \<open>connect\<close> returns, the number of events that the
  consumer gets through in the ten seconds before it is cancelled, and the number of
  further frames that reach the client before it sends the disconnect notice.
\<close>

record env =
  json_loads :: "string \<Rightarrow> pyval option"
  format :: "pyval \<Rightarrow> string"
  server1 :: "frame list option"
  early1 :: nat
  cancel_after :: nat
  gap :: nat
  server2 :: "frame list option"
  early2 :: nat

text \<open>What \<open>run\<close> leaves behind: the two connections, if they were opened, and the output.\<close>

record world =
  ws1 :: "websocket option"
  ws2 :: "websocket option"
  stdout :: "string list"

text \<open>
  Lines 15 to 21: the consumer runs as a task while \<open>run\<close> sleeps, then it is cancelled
  and awaited. \<open>CancelledError\<close> from the task is swallowed; a task that has ended by
  itself hands over its return or its exception, and that exception is not caught. While
  the task is awaited, \<open>gap\<close> more frames may arrive; between that await and the send of
  line 25 the event loop does not run, so nothing else arrives before the notice goes out.
\<close>

definition run_listen :: "env \<Rightarrow> websocket \<Rightarrow> string list \<Rightarrow> unit result \<times> websocket \<times> string list" where
  "run_listen e ws out =
     (case process_scores (json_loads e) (format e) (Some (cancel_after e)) ws out of
        (Inl (Raise x), ws', out') \<Rightarrow>
          (if x = CancelledError then (Inr (), deliver (gap e) ws', out')
           else (Inl (Raise x), ws', out'))
      | (Inl Hang, ws', out') \<Rightarrow> (Inl Hang, ws', out')
      | (Inr u, ws', out') \<Rightarrow> (Inr (), deliver (gap e) ws', out'))"

text \<open>Lines 25 to 29: the disconnect notice, the score id that answers it, the close.\<close>

definition run_suspend :: "websocket \<Rightarrow> string result \<times> websocket" where
  "run_suspend ws =
     (case send ''disconnect'' ws of
        (Inl s, ws') \<Rightarrow> (Inl s, ws')
      | (Inr u, ws') \<Rightarrow>
          (case recv ws' of
             (Inl s, ws'') \<Rightarrow> (Inl s, ws'')
           | (Inr score_id, ws'') \<Rightarrow> (Inr score_id, close ws'')))"

text \<open>
  Leaving an \<open>async with connect(...)\<close> block closes its connection, on a return and on an
  exception alike; a body that never ends never leaves.
\<close>

definition aexit :: "'a result \<Rightarrow> websocket \<Rightarrow> websocket" where
  "aexit r ws = (case r of Inl Hang \<Rightarrow> ws | _ \<Rightarrow> close ws)"

text \<open>Lines 34 to 38: the second connection, opened with the score id, and consumed for good.\<close>

definition run_resume ::
  "env \<Rightarrow> string \<Rightarrow> string list \<Rightarrow> unit result \<times> websocket option \<times> string list" where
  "run_resume e score_id out =
     (case connect (server2 e) (early2 e) of
        Inl x \<Rightarrow> (Inl (Raise x), None, out)
      | Inr ws \<Rightarrow>
          (case (case send score_id ws of
                   (Inl s, ws') \<Rightarrow> (Inl s, ws', out)
                 | (Inr u, ws') \<Rightarrow> process_scores (json_loads e) (format e) None ws' out) of
             (r, ws', out') \<Rightarrow> (r, Some (aexit r ws'), out')))"

text \<open>
  Lines 12 to 38, the body of the outer \<open>async with\<close>. The sleep of line 31 touches neither
  connection: the first is closed by then and the second not yet opened.
\<close>

definition run_body ::
  "env \<Rightarrow> websocket \<Rightarrow> unit result \<times> websocket \<times> websocket option \<times> string list" where
  "run_body e ws =
     (case send ''connect'' ws of
        (Inl s, ws') \<Rightarrow> (Inl s, ws', None, [])
      | (Inr u, ws') \<Rightarrow>
          (case run_listen e ws' [] of
             (Inl s, ws'', out) \<Rightarrow> (Inl s, ws'', None, out)
           | (Inr u, ws'', out) \<Rightarrow>
               (case run_suspend ws'' of
                  (Inl s, ws''') \<Rightarrow> (Inl s, ws''', None, out)
                | (Inr score_id, ws''') \<Rightarrow>
                    (case run_resume e score_id out of
                       (r, second, out') \<Rightarrow> (r, ws''', second, out')))))"

text \<open>Lines 7 to 38.\<close>

definition run :: "env \<Rightarrow> unit result \<times> world" where
  "run e =
     (case connect (server1 e) (early1 e) of
        Inl x \<Rightarrow> (Inl (Raise x), \<lparr>ws1 = None, ws2 = None, stdout = []\<rparr>)
      | Inr ws \<Rightarrow>
          (case run_body e ws of
             (r, ws', second, out) \<Rightarrow>
               (r, \<lparr>ws1 = Some (aexit r ws'), ws2 = second, stdout = out\<rparr>)))"

subsection \<open>Vocabulary of the properties\<close>

text \<open>
  A decoded score has a field when it is a dict with that key. An event is decodable when
  \<open>json.loads\<close> accepts it and the result has the three fields that the consumer reads.
\<close>

fun has_field :: "pyval \<Rightarrow> string \<Rightarrow> bool" where
  "has_field (PyDict kvs) k = (k \<in> set (map fst kvs))"
| "has_field _ k = False"

definition decodable :: "(string \<Rightarrow> pyval option) \<Rightarrow> string \<Rightarrow> bool" where
  "decodable loads event =
     (case loads event of
        None \<Rightarrow> False
      | Some score \<Rightarrow>
          has_field score ''user_id'' \<and> has_field score ''pp'' \<and> has_field score ''beatmap_id'')"

text \<open>
  Frames that are all decodable events: what a consumer has to find in front of it to be
  still running when its cancellation comes.
\<close>

definition all_good :: "(string \<Rightarrow> pyval option) \<Rightarrow> frame list \<Rightarrow> bool" where
  "all_good loads fs = (\<forall>f\<in>set fs. \<exists>m. f = Message m \<and> decodable loads m)"

subsection \<open>Example inputs\<close>

text \<open>
  A decoder and a formatter for the concrete runs below: \<open>bad\<close> is not JSON, \<open>list\<close>
  decodes to a list, \<open>nopp\<close> to a score without its \<open>pp\<close>, every other event to a full
  score.
\<close>

definition score_of :: "string \<Rightarrow> pyval option" where
  "score_of event =
     (if event = ''bad'' then None
      else if event = ''list'' then Some (PyList [])
      else if event = ''nopp'' then Some (PyDict [(''user_id'', PyInt 2)])
      else Some (PyDict [(''user_id'', PyInt 2), (''pp'', PyStr event), (''beatmap_id'', PyInt 75)]))"

fun show_val :: "pyval \<Rightarrow> string" where
  "show_val (PyStr s) = s"
| "show_val (PyInt n) = (if n = 2 then ''2'' else ''75'')"
| "show_val _ = ''?''"

text \<open>
  A whole run: two events arrive and are consumed before the cancellation, the server
  answers the disconnect notice with \<open>tok\<close>, and the second connection delivers one event
  and is closed by the server.
\<close>

definition example_env :: env where
  "example_env = \<lparr>json_loads = score_of, format = show_val,
     server1 = Some [Message ''a'', Message ''b'', Message ''tok''], early1 = 0,
     cancel_after = 2, gap = 0, server2 = Some [Message ''c'', CloseOK], early2 = 0\<rparr>"

text \<open>
  Two runs that go wrong: in the first the server closes as soon as the connection is
  open, in the second the connection is lost after two events, one of them still unread
  when the consumer is cancelled.
\<close>

definition closed_env :: env where
  "closed_env = \<lparr>json_loads = score_of, format = show_val,
     server1 = Some [CloseError], early1 = 1,
     cancel_after = 2, gap = 0, server2 = Some [Message ''c'', CloseOK], early2 = 0\<rparr>"

definition lost_env :: env where
  "lost_env = \<lparr>json_loads = score_of, format = show_val,
     server1 = Some [Message ''a'', Message ''b'', CloseError], early1 = 0,
     cancel_after = 1, gap = 0, server2 = Some [Message ''c'', CloseOK], early2 = 0\<rparr>"

section \<open>Properties\<close>

subsection \<open>Reading from the connection\<close>

lemma pending_deliver: "pending (deliver n ws) = pending ws"
  by (simp add: pending_def deliver_def)

lemma actions_deliver: "actions (deliver n ws) = actions ws"
  by (simp add: deliver_def)

lemma awaited_frame:
  assumes "w = (if buffered ws = [] then deliver 1 ws else ws)"
  shows "pending w = pending ws" and "actions w = actions ws"
    and "buffered w = [] \<Longrightarrow> pending ws = []"
  using assms by (auto simp: pending_def deliver_def take_Suc split: if_splits list.splits)

lemma recv_cases:
  assumes "recv ws = (r, ws')"
  shows "(\<exists>m. r = Inr m \<and> Closed \<notin> set (actions ws) \<and> pending ws = Message m # pending ws'
          \<and> actions ws' = actions ws @ [Received m])
   \<or> (\<exists>s. r = Inl s \<and> pending ws' = pending ws \<and> actions ws' = actions ws)"
proof -
  define w where "w = (if buffered ws = [] then deliver 1 ws else ws)"
  note w = awaited_frame [OF w_def]
  have "pending w = buffered w @ wire w"
    by (simp add: pending_def)
  with assms w(1,2) show ?thesis
    unfolding recv_def Let_def w_def [symmetric]
    by (auto simp: pending_def split: if_splits list.splits frame.splits)
qed

lemma recv_pending:
  assumes "Closed \<notin> set (actions ws)"
  shows "case pending ws of
           [] \<Rightarrow> \<exists>ws'. recv ws = (Inl Hang, ws') \<and> pending ws' = [] \<and> actions ws' = actions ws
         | Message m # fs \<Rightarrow>
             \<exists>ws'. recv ws = (Inr m, ws') \<and> pending ws' = fs \<and> actions ws' = actions ws @ [Received m]
         | CloseOK # fs \<Rightarrow>
             \<exists>ws'. recv ws = (Inl (Raise ConnectionClosedOK), ws') \<and> pending ws' = pending ws
                  \<and> actions ws' = actions ws
         | CloseError # fs \<Rightarrow>
             \<exists>ws'. recv ws = (Inl (Raise ConnectionClosedError), ws') \<and> pending ws' = pending ws
                  \<and> actions ws' = actions ws"
proof -
  define w where "w = (if buffered ws = [] then deliver 1 ws else ws)"
  note w = awaited_frame [OF w_def]
  have "pending w = buffered w @ wire w"
    by (simp add: pending_def)
  with assms w show ?thesis
    unfolding recv_def Let_def w_def [symmetric]
    by (cases "buffered w") (auto simp: pending_def split: list.splits frame.splits)
qed

lemma close_seen_cases:
  "close_seen fs = None \<or> close_seen fs = Some ConnectionClosedOK \<or> close_seen fs = Some ConnectionClosedError"
  by (induction fs rule: close_seen.induct) simp_all

lemma send_ok:
  "Closed \<notin> set (actions ws) \<Longrightarrow> close_seen (buffered ws) = None \<Longrightarrow>
     send m ws = (Inr (), ws\<lparr>actions := actions ws @ [Sent m]\<rparr>)"
  by (simp add: send_def)

lemma send_cases:
  assumes "send m ws = (r, ws')"
  shows "(r = Inr () \<and> Closed \<notin> set (actions ws) \<and> close_seen (buffered ws) = None
            \<and> ws' = ws\<lparr>actions := actions ws @ [Sent m]\<rparr>)
       \<or> (ws' = ws \<and> (r = Inl (Raise ConnectionClosedOK) \<or> r = Inl (Raise ConnectionClosedError))
            \<and> (Closed \<in> set (actions ws) \<or> close_seen (buffered ws) \<noteq> None))"
  using assms close_seen_cases [of "buffered ws"]
  by (auto simp: send_def split: if_splits option.splits)

lemma recv_closed:
  "Closed \<in> set (actions ws) \<Longrightarrow> recv ws = (Inl (Raise ConnectionClosedOK), ws)"
  by (simp add: recv_def)

subsection \<open>The loop\<close>

declare events_loop.simps [simp del]

lemma print_score_exn:
  "print_score loads str m = Inl x \<Longrightarrow> x = JSONDecodeError \<or> x = TypeError \<or> (\<exists>k. x = KeyError k)"
  apply (auto simp: print_score_def split: option.splits sum.splits)
  apply (case_tac x2; auto split: option.splits)+
  done

lemma events_loop_trace:
  "events_loop loads str cancel ws out = (r, ws', out') \<Longrightarrow>
     \<exists>ms lines. actions ws' = actions ws @ map Received ms
        \<and> pending ws = map Message ms @ pending ws'
        \<and> out' = out @ lines
        \<and> (map (print_score loads str) ms = map Inr lines
           \<or> (\<exists>x. r = Inl (Raise x) \<and> ms \<noteq> []
                \<and> map (print_score loads str) (butlast ms) = map Inr lines
                \<and> print_score loads str (last ms) = Inl x))"
proof (induction loads str cancel ws out rule: events_loop.induct)
  case (1 loads str cancel ws out)
  show ?case
  proof (cases "cancel = Some 0")
    case True
    with "1.prems" show ?thesis
      by (simp add: events_loop.simps)
  next
    case False
    obtain a w where rw: "recv ws = (a, w)"
      by (cases "recv ws")
    from recv_cases [OF rw] show ?thesis
    proof (elim disjE exE conjE)
      fix s assume s: "a = Inl s" "pending w = pending ws" "actions w = actions ws"
      with False rw "1.prems" have "ws' = w \<and> out' = out"
        by (auto simp: events_loop.simps [of loads str cancel ws out] split: stop.splits if_splits)
      with s show ?thesis by simp
    next
      fix m assume m: "a = Inr m" "pending ws = Message m # pending w"
        "actions w = actions ws @ [Received m]"
      show ?thesis
      proof (cases "print_score loads str m")
        case (Inl x)
        with False rw m "1.prems" have "ws' = w \<and> out' = out \<and> r = Inl (Raise x)"
          by (auto simp: events_loop.simps [of loads str cancel ws out])
        with m Inl show ?thesis
          by (intro exI [of _ "[m]"] exI [of _ "[]"]) simp
      next
        case (Inr line)
        with False rw m "1.prems"
        have "events_loop loads str (map_option (\<lambda>n. n - 1) cancel) w (out @ [line]) = (r, ws', out')"
          by (auto simp: events_loop.simps [of loads str cancel ws out])
        from "1.IH" [OF False rw [symmetric] m(1) Inr this]
        obtain ms lines where h: "actions ws' = actions w @ map Received ms"
          "pending w = map Message ms @ pending ws'" "out' = (out @ [line]) @ lines"
          "map (print_score loads str) ms = map Inr lines
           \<or> (\<exists>x. r = Inl (Raise x) \<and> ms \<noteq> []
                \<and> map (print_score loads str) (butlast ms) = map Inr lines
                \<and> print_score loads str (last ms) = Inl x)"
          by blast
        with m Inr show ?thesis
          by (intro exI [of _ "m # ms"] exI [of _ "line # lines"]) auto
      qed
    qed
  qed
qed

lemma getitem_Inr: "(\<exists>v. getitem score k = Inr v) = has_field score k"
proof (cases score)
  case (PyDict kvs)
  have "(map_of kvs k = None) = (k \<notin> fst ` set kvs)"
    by (rule map_of_eq_None_iff)
  with PyDict show ?thesis
    by (cases "map_of kvs k") auto
qed simp_all

lemma getitem_Inl: "(\<exists>x. getitem score k = Inl x) = (\<not> has_field score k)"
  using getitem_Inr [of score k] by (cases "getitem score k") auto

lemma print_score_Inr: "(\<exists>line. print_score loads str m = Inr line) = decodable loads m"
proof (cases "loads m")
  case None
  then show ?thesis by (simp add: print_score_def decodable_def)
next
  case (Some score)
  then show ?thesis
    using getitem_Inr [of score "''user_id''"] getitem_Inr [of score "''pp''"]
      getitem_Inr [of score "''beatmap_id''"]
    by (auto simp: print_score_def decodable_def split: sum.splits)
qed

lemma process_scores_eq: "process_scores loads str cancel ws out = events_loop loads str cancel ws out"
  by (auto simp: process_scores_def split: prod.splits sum.splits stop.splits)

lemma events_loop_prefix:
  assumes "Closed \<notin> set (actions ws)"
    and "pending ws = map Message evs @ rest"
    and "\<forall>m\<in>set evs. decodable loads m"
    and "\<forall>n. cancel = Some n \<longrightarrow> length evs \<le> n"
  shows "\<exists>ws' lines.
      map (print_score loads str) evs = map Inr lines
    \<and> actions ws' = actions ws @ map Received evs
    \<and> pending ws' = rest
    \<and> events_loop loads str cancel ws out =
        events_loop loads str (map_option (\<lambda>n. n - length evs) cancel) ws' (out @ lines)"
  using assms
proof (induction evs arbitrary: ws out cancel)
  case Nil
  have "map_option (\<lambda>n. n - 0) cancel = cancel"
    by (cases cancel) simp_all
  with Nil show ?case
    by (intro exI [of _ ws] exI [of _ "[]"]) simp
next
  case (Cons m evs)
  from Cons.prems(3) obtain line where line: "print_score loads str m = Inr line"
    using print_score_Inr [of loads str m] by auto
  from Cons.prems(1,2) recv_pending [of ws]
  obtain w where w: "recv ws = (Inr m, w)" "pending w = map Message evs @ rest"
    "actions w = actions ws @ [Received m]"
    by auto
  from Cons.prems(4) have c0: "cancel \<noteq> Some 0"
    by auto
  have step: "events_loop loads str cancel ws out =
      events_loop loads str (map_option (\<lambda>n. n - 1) cancel) w (out @ [line])"
    using c0 w(1) line by (simp add: events_loop.simps [of loads str cancel ws out])
  have open_w: "Closed \<notin> set (actions w)"
    using Cons.prems(1) w(3) by simp
  have c': "\<forall>n. map_option (\<lambda>n. n - 1) cancel = Some n \<longrightarrow> length evs \<le> n"
    using Cons.prems(4) by (cases cancel) auto
  from Cons.IH [OF open_w w(2) _ c', of "out @ [line]"] Cons.prems(3)
  obtain ws' lines where h: "map (print_score loads str) evs = map Inr lines"
    "actions ws' = actions w @ map Received evs" "pending ws' = rest"
    "events_loop loads str (map_option (\<lambda>n. n - 1) cancel) w (out @ [line]) =
     events_loop loads str (map_option (\<lambda>n. n - length evs) (map_option (\<lambda>n. n - 1) cancel)) ws'
       ((out @ [line]) @ lines)"
    by auto
  have "map_option (\<lambda>n. n - length evs) (map_option (\<lambda>n. n - 1) cancel)
        = map_option (\<lambda>n. n - length (m # evs)) cancel"
    by (cases cancel) simp_all
  with h step line w(3) show ?case
    by (intro exI [of _ ws'] exI [of _ "line # lines"]) simp
qed

lemma all_good_simps:
  "all_good loads []"
  "all_good loads (Message m # fs) = (decodable loads m \<and> all_good loads fs)"
  "\<not> all_good loads (CloseOK # fs)"
  "\<not> all_good loads (CloseError # fs)"
  by (auto simp: all_good_def)

lemma events_loop_cancelled_iff:
  "(fst (events_loop loads str cancel ws out) = Inl (Raise CancelledError)) =
     (\<exists>n. cancel = Some n \<and>
        (n = 0 \<or> (Closed \<notin> set (actions ws) \<and> all_good loads (take n (pending ws)))))"
proof (induction loads str cancel ws out rule: events_loop.induct)
  case (1 loads str cancel ws out)
  note unfold = events_loop.simps [of loads str cancel ws out]
  show ?case
  proof (cases "cancel = Some 0")
    case True
    then show ?thesis by (simp add: events_loop.simps [of loads str "Some 0" ws out])
  next
    case c0: False
    then have rhs: "(\<exists>n. cancel = Some n \<and>
        (n = 0 \<or> (Closed \<notin> set (actions ws) \<and> all_good loads (take n (pending ws)))))
      = (\<exists>k. cancel = Some (Suc k) \<and> Closed \<notin> set (actions ws)
            \<and> all_good loads (take (Suc k) (pending ws)))"
      by (metis not0_implies_Suc nat.distinct(1))
    show ?thesis
    proof (cases "Closed \<in> set (actions ws)")
      case True
      with c0 have "events_loop loads str cancel ws out = (Inr (), ws, out)"
        by (simp add: unfold recv_closed)
      with True show ?thesis
        unfolding rhs by simp
    next
      case op: False
      note rp = recv_pending [OF op]
      show ?thesis
      proof (cases "pending ws")
        case Nil
        with rp obtain w where "recv ws = (Inl Hang, w)" by auto
        with c0 have "fst (events_loop loads str cancel ws out)
            = (if cancel = None then Inl Hang else Inl (Raise CancelledError))"
          by (simp add: unfold)
        with c0 Nil op show ?thesis
          unfolding rhs by (cases cancel) (simp_all add: all_good_simps gr0_conv_Suc)
      next
        case (Cons f fs)
        show ?thesis
        proof (cases f)
          case CloseOK
          with Cons rp obtain w where "recv ws = (Inl (Raise ConnectionClosedOK), w)" by auto
          with c0 have "fst (events_loop loads str cancel ws out) = Inr ()"
            by (simp add: unfold)
          with Cons CloseOK show ?thesis
            unfolding rhs by (simp add: all_good_simps)
        next
          case CloseError
          with Cons rp obtain w where "recv ws = (Inl (Raise ConnectionClosedError), w)" by auto
          with c0 have "fst (events_loop loads str cancel ws out) = Inl (Raise ConnectionClosedError)"
            by (simp add: unfold)
          with Cons CloseError show ?thesis
            unfolding rhs by (simp add: all_good_simps)
        next
          case (Message m)
          with Cons rp obtain w where w: "recv ws = (Inr m, w)" "pending w = fs"
            "actions w = actions ws @ [Received m]" by auto
          show ?thesis
          proof (cases "print_score loads str m")
            case (Inl x)
            then have nd: "\<not> decodable loads m"
              using print_score_Inr [of loads str m] by auto
            from Inl have "x \<noteq> CancelledError"
              using print_score_exn [of loads str m x] by auto
            moreover from c0 w Inl have "fst (events_loop loads str cancel ws out) = Inl (Raise x)"
              by (simp add: unfold)
            ultimately show ?thesis
              unfolding rhs using nd Cons Message by (simp add: all_good_simps)
          next
            case (Inr line)
            then have d: "decodable loads m"
              using print_score_Inr [of loads str m] by auto
            have step: "events_loop loads str cancel ws out =
                events_loop loads str (map_option (\<lambda>n. n - 1) cancel) w (out @ [line])"
              using c0 w(1) Inr by (simp add: unfold)
            note IH = "1.IH" [OF c0 w(1) [symmetric] refl Inr]
            show ?thesis
            proof (cases cancel)
              case None
              with step IH show ?thesis by simp
            next
              case (Some n)
              with c0 obtain k where k: "n = Suc k" by (cases n) auto
              have "all_good loads (take (Suc k) (pending ws)) = all_good loads (take k fs)"
                using Cons Message d by (simp add: all_good_simps)
              moreover have "(k = 0 \<or> all_good loads (take k fs)) = all_good loads (take k fs)"
                by (auto simp: all_good_simps)
              ultimately show ?thesis
                using Some k step IH w op by simp
            qed
          qed
        qed
      qed
    qed
  qed
qed

subsection \<open>Ordered delivery\<close>

text \<open>
  Claim C5, as amended. When the server's next frames on an open connection are the events
  \<open>evs\<close>, all decodable, and the consumer is not cancelled before it is through them, it
  reads exactly these events first, one per message and in the server's order, and prints
  their lines in that order. What it has read and what is still unread are together what
  the server sent: nothing is skipped, repeated or reordered. Cancelled right after the
  last of them, it has read and printed these events and nothing else. The events have to
  decode: the consumer ends at the first one that does not, and reads nothing behind it.
\<close>

theorem events_in_order:
  assumes "Closed \<notin> set (actions ws)"
    and "pending ws = map Message evs @ rest"
    and "\<forall>m\<in>set evs. decodable loads m"
    and "\<forall>n. cancel = Some n \<longrightarrow> length evs \<le> n"
  shows "\<exists>r ws' out' more lines more_lines.
      process_scores loads str cancel ws out = (r, ws', out')
    \<and> actions ws' = actions ws @ map Received (evs @ more)
    \<and> pending ws = map Message (evs @ more) @ pending ws'
    \<and> map (print_score loads str) evs = map Inr lines
    \<and> out' = out @ lines @ more_lines
    \<and> (cancel = Some (length evs) \<longrightarrow>
         more = [] \<and> more_lines = [] \<and> r = Inl (Raise CancelledError))"
proof -
  from events_loop_prefix [OF assms, of str out]
  obtain w lines where w: "map (print_score loads str) evs = map Inr lines"
    "actions w = actions ws @ map Received evs" "pending w = rest"
    "events_loop loads str cancel ws out =
       events_loop loads str (map_option (\<lambda>n. n - length evs) cancel) w (out @ lines)"
    by blast
  show ?thesis
  proof (cases "cancel = Some (length evs)")
    case True
    with w(4) have "process_scores loads str cancel ws out = (Inl (Raise CancelledError), w, out @ lines)"
      by (simp add: process_scores_eq events_loop.simps [of loads str "Some 0"])
    with w assms(2) True show ?thesis
      by (intro exI [of _ "Inl (Raise CancelledError)"] exI [of _ w] exI [of _ "out @ lines"]
          exI [of _ "[]"] exI [of _ lines]) simp
  next
    case False
    obtain r ws' out' where r: "events_loop loads str (map_option (\<lambda>n. n - length evs) cancel) w (out @ lines) = (r, ws', out')"
      by (metis prod_cases3)
    from events_loop_trace [OF r] obtain ms ls where
      t: "actions ws' = actions w @ map Received ms" "pending w = map Message ms @ pending ws'"
        "out' = (out @ lines) @ ls"
      by blast
    with w r assms(2) False show ?thesis
      by (intro exI [of _ r] exI [of _ ws'] exI [of _ out'] exI [of _ ms] exI [of _ lines]
          exI [of _ ls]) (simp add: process_scores_eq)
  qed
qed

theorem events_in_order_witness:
  "\<exists>r ws' out' more lines more_lines.
      process_scores score_of show_val (Some 2)
        \<lparr>actions = [Sent ''connect''], buffered = [], wire = [Message ''a'', Message ''b'', Message ''c'']\<rparr> []
        = (r, ws', out')
    \<and> actions ws' = [Sent ''connect''] @ map Received ([''a'', ''b''] @ more)
    \<and> [Message ''a'', Message ''b'', Message ''c''] = map Message ([''a'', ''b''] @ more) @ pending ws'
    \<and> map (print_score score_of show_val) [''a'', ''b''] = map Inr lines
    \<and> out' = [] @ lines @ more_lines
    \<and> more = [] \<and> more_lines = [] \<and> r = Inl (Raise CancelledError)"
  using events_in_order [of "\<lparr>actions = [Sent ''connect''], buffered = [],
      wire = [Message ''a'', Message ''b'', Message ''c'']\<rparr>" "[''a'', ''b'']" "[Message ''c'']"
      score_of "Some 2" show_val "[]"]
  by (simp add: pending_def decodable_def score_of_def)

text \<open>
  As the claim is written, for every sequence of events, it fails: of three events on an
  open connection, with no cancellation, the third is never read when the second has no
  \<open>pp\<close>.
\<close>

theorem events_in_order_counterexample:
  "process_scores score_of show_val None
      \<lparr>actions = [Sent ''connect''], buffered = [],
         wire = [Message ''a'', Message ''nopp'', Message ''c'']\<rparr> []
     = (Inl (Raise (KeyError ''pp'')),
        \<lparr>actions = [Sent ''connect'', Received ''a'', Received ''nopp''], buffered = [],
           wire = [Message ''c'']\<rparr>,
        [''2 got app on 75''])"
  by (simp add: events_loop.simps process_scores_def recv_def deliver_def print_score_def
      score_of_def Let_def)

subsection \<open>Exceptions of the loop body, the handshake, and what was sent\<close>

lemma print_score_Inl:
  assumes "print_score loads str m = Inl x"
  shows "x \<noteq> CancelledError"
    and "x = JSONDecodeError \<or> x = TypeError \<or> x = KeyError ''user_id'' \<or> x = KeyError ''pp''
         \<or> x = KeyError ''beatmap_id''"
    and "loads m = None \<Longrightarrow> x = JSONDecodeError"
proof -
  have g: "\<And>score k y. getitem score k = Inl y \<Longrightarrow> y = TypeError \<or> y = KeyError k"
    by (case_tac score) (auto split: option.splits)
  from assms show "x = JSONDecodeError \<or> x = TypeError \<or> x = KeyError ''user_id'' \<or> x = KeyError ''pp''
         \<or> x = KeyError ''beatmap_id''"
    by (auto simp: print_score_def split: option.splits sum.splits dest: g)
  then show "x \<noteq> CancelledError" by auto
  from assms show "loads m = None \<Longrightarrow> x = JSONDecodeError"
    by (simp add: print_score_def)
qed

lemma run_suspend_ok:
  assumes "Closed \<notin> set (actions ws)" "close_seen (buffered ws) = None"
    "pending ws = Message tok # rest"
  shows "\<exists>ws'. run_suspend ws = (Inr tok, ws')
      \<and> actions ws' = actions ws @ [Sent ''disconnect'', Received tok, Closed]
      \<and> pending ws' = rest"
proof -
  let ?w = "ws\<lparr>actions := actions ws @ [Sent ''disconnect'']\<rparr>"
  have s: "send ''disconnect'' ws = (Inr (), ?w)"
    using assms(1,2) by (rule send_ok)
  have "Closed \<notin> set (actions ?w)" "pending ?w = Message tok # rest"
    using assms by (simp_all add: pending_def)
  with recv_pending [of ?w] obtain w' where w': "recv ?w = (Inr tok, w')" "pending w' = rest"
    "actions w' = actions ?w @ [Received tok]"
    by auto
  with s assms(1) show ?thesis
    by (simp add: run_suspend_def close_def pending_def)
qed

lemma sent_append: "actions ws' = actions ws @ as \<Longrightarrow>
    sent ws' = sent ws @ concat (map (\<lambda>a. case a of Sent m \<Rightarrow> [m] | _ \<Rightarrow> []) as)"
  by (simp add: sent_def)

lemma sent_Received: "concat (map (\<lambda>a. case a of Sent m \<Rightarrow> [m] | _ \<Rightarrow> []) (map Received ms)) = []"
  by (induction ms) simp_all

text \<open>The equations that evaluate a concrete run.\<close>

lemmas evaluation = events_loop.simps process_scores_def recv_def send_def close_def deliver_def
  print_score_def score_of_def Let_def pending_def decodable_def all_good_def run_listen_def
  run_suspend_def

subsection \<open>Cancellation is passed on\<close>

text \<open>
  Claim C4. The handler of \<open>process_scores\<close> changes nothing: the coroutine ends exactly as its
  loop ends. It ends with \<open>CancelledError\<close> exactly when the caller has cancelled it and every
  frame it met before was a decodable event, so a \<open>CancelledError\<close> never stands for a lost
  connection, which ends it with \<open>ConnectionClosedError\<close> instead. The caller \<open>run\<close> never
  reports the cancellation as a failure, and passes every other exception of the task on.
\<close>

theorem cancellation_reraised:
  "process_scores loads str cancel ws out = events_loop loads str cancel ws out
   \<and> ((fst (process_scores loads str cancel ws out) = Inl (Raise CancelledError)) =
       (\<exists>n. cancel = Some n \<and>
          (n = 0 \<or> (Closed \<notin> set (actions ws) \<and> all_good loads (take n (pending ws))))))
   \<and> fst (run_listen e ws out) \<noteq> Inl (Raise CancelledError)
   \<and> (\<forall>x. x \<noteq> CancelledError
          \<and> fst (process_scores (json_loads e) (format e) (Some (cancel_after e)) ws out) = Inl (Raise x)
        \<longrightarrow> fst (run_listen e ws out) = Inl (Raise x))"
proof (intro conjI allI impI)
  show "process_scores loads str cancel ws out = events_loop loads str cancel ws out"
    by (rule process_scores_eq)
  show "(fst (process_scores loads str cancel ws out) = Inl (Raise CancelledError)) =
       (\<exists>n. cancel = Some n \<and>
          (n = 0 \<or> (Closed \<notin> set (actions ws) \<and> all_good loads (take n (pending ws)))))"
    unfolding process_scores_eq by (rule events_loop_cancelled_iff)
  show "fst (run_listen e ws out) \<noteq> Inl (Raise CancelledError)"
    by (auto simp: run_listen_def split: prod.splits sum.splits stop.splits)
  show "fst (run_listen e ws out) = Inl (Raise x)"
    if "x \<noteq> CancelledError
          \<and> fst (process_scores (json_loads e) (format e) (Some (cancel_after e)) ws out) = Inl (Raise x)"
    for x
    using that by (auto simp: run_listen_def split: prod.splits sum.splits stop.splits)
qed

theorem cancellation_reraised_witness:
  "fst (process_scores score_of show_val (Some 1)
      \<lparr>actions = [Sent ''connect''], buffered = [], wire = [Message ''a'', CloseError]\<rparr> [])
     = Inl (Raise CancelledError)
   \<and> fst (run_listen \<lparr>json_loads = score_of, format = show_val, server1 = None, early1 = 0,
        cancel_after = 2, gap = 0, server2 = None, early2 = 0\<rparr>
      \<lparr>actions = [Sent ''connect''], buffered = [], wire = [Message ''a'', CloseError]\<rparr> [])
     = Inl (Raise ConnectionClosedError)"
proof -
  have h: "fst (process_scores score_of show_val (Some 2)
      \<lparr>actions = [Sent ''connect''], buffered = [], wire = [Message ''a'', CloseError]\<rparr> [])
     = Inl (Raise ConnectionClosedError)"
    by (simp add: evaluation)
  have r: "\<exists>n. Some (1::nat) = Some n \<and> (n = 0 \<or>
      (Closed \<notin> set (actions \<lparr>actions = [Sent ''connect''], buffered = [], wire = [Message ''a'', CloseError]\<rparr>)
       \<and> all_good score_of (take n
            (pending \<lparr>actions = [Sent ''connect''], buffered = [], wire = [Message ''a'', CloseError]\<rparr>))))"
    by (simp add: pending_def all_good_def decodable_def score_of_def)
  have x: "ConnectionClosedError \<noteq> CancelledError"
    by simp
  show ?thesis
    using h r x cancellation_reraised [of score_of show_val "Some 1"
      "\<lparr>actions = [Sent ''connect''], buffered = [], wire = [Message ''a'', CloseError]\<rparr>" "[]"
      "\<lparr>json_loads = score_of, format = show_val, server1 = None, early1 = 0,
        cancel_after = 2, gap = 0, server2 = None, early2 = 0\<rparr>"]
    unfolding env.simps by blast
qed

subsection \<open>Cancellation safety\<close>

text \<open>
  Claim C6. A consumer that ends by cancellation has read some whole events \<open>ms\<close>, the first
  frames that were pending, and has printed a line for each of them and for nothing else:
  no event is read and left unprinted. The frames behind them are still unread and in
  order, nothing was sent, and the connection is not closed. The disconnect handshake can
  then be run on it: whatever further frames have arrived, if no close is among them and
  the next unread frame is a message, the handshake returns that message and closes.
\<close>

theorem cancellation_safe:
  assumes "process_scores loads str cancel ws out = (Inl (Raise CancelledError), ws', out')"
  shows "\<exists>ms lines.
      actions ws' = actions ws @ map Received ms
    \<and> pending ws = map Message ms @ pending ws'
    \<and> map (print_score loads str) ms = map Inr lines
    \<and> out' = out @ lines
    \<and> sent ws' = sent ws
    \<and> (Closed \<notin> set (actions ws) \<longrightarrow> Closed \<notin> set (actions ws'))
    \<and> (\<forall>g tok rest.
          Closed \<notin> set (actions ws) \<and> close_seen (buffered (deliver g ws')) = None
            \<and> pending ws' = Message tok # rest
          \<longrightarrow> (\<exists>ws''. run_suspend (deliver g ws') = (Inr tok, ws'')
                \<and> actions ws'' = actions ws' @ [Sent ''disconnect'', Received tok, Closed]
                \<and> pending ws'' = rest))"
proof -
  from assms have "events_loop loads str cancel ws out = (Inl (Raise CancelledError), ws', out')"
    by (simp add: process_scores_eq)
  from events_loop_trace [OF this] obtain ms lines where
    t: "actions ws' = actions ws @ map Received ms" "pending ws = map Message ms @ pending ws'"
      "out' = out @ lines"
      "map (print_score loads str) ms = map Inr lines
       \<or> (\<exists>x. Inl (Raise CancelledError) = (Inl (Raise x) :: unit result) \<and> ms \<noteq> []
            \<and> map (print_score loads str) (butlast ms) = map Inr lines
            \<and> print_score loads str (last ms) = Inl x)"
    by blast
  from t(4) have whole: "map (print_score loads str) ms = map Inr lines"
    using print_score_Inl(1) by fastforce
  have s: "sent ws' = sent ws"
    using sent_append [OF t(1)] by (simp add: sent_Received)
  have o: "Closed \<notin> set (actions ws) \<longrightarrow> Closed \<notin> set (actions ws')"
    using t(1) by auto
  have "\<exists>ws''. run_suspend (deliver g ws') = (Inr tok, ws'')
                \<and> actions ws'' = actions ws' @ [Sent ''disconnect'', Received tok, Closed]
                \<and> pending ws'' = rest"
    if "Closed \<notin> set (actions ws)" "close_seen (buffered (deliver g ws')) = None"
      "pending ws' = Message tok # rest" for g tok rest
    using run_suspend_ok [of "deliver g ws'" tok rest] that o
    by (simp add: actions_deliver pending_deliver)
  with t(1,2,3) whole s o show ?thesis
    by blast
qed

theorem cancellation_safe_witness:
  "process_scores score_of show_val (Some 1)
      \<lparr>actions = [Sent ''connect''], buffered = [], wire = [Message ''a'', Message ''tok'']\<rparr> []
     = (Inl (Raise CancelledError),
        \<lparr>actions = [Sent ''connect'', Received ''a''], buffered = [], wire = [Message ''tok'']\<rparr>,
        [''2 got app on 75''])
   \<and> (\<exists>ws''. run_suspend (deliver 0
        \<lparr>actions = [Sent ''connect'', Received ''a''], buffered = [], wire = [Message ''tok'']\<rparr>)
          = (Inr ''tok'', ws'')
        \<and> actions ws'' = [Sent ''connect'', Received ''a''] @ [Sent ''disconnect'', Received ''tok'', Closed]
        \<and> pending ws'' = [])"
proof -
  have h: "process_scores score_of show_val (Some 1)
      \<lparr>actions = [Sent ''connect''], buffered = [], wire = [Message ''a'', Message ''tok'']\<rparr> []
     = (Inl (Raise CancelledError),
        \<lparr>actions = [Sent ''connect'', Received ''a''], buffered = [], wire = [Message ''tok'']\<rparr>,
        [''2 got app on 75''])"
    by (simp add: evaluation)
  from cancellation_safe [OF h] have
    "Closed \<notin> set (actions \<lparr>actions = [Sent ''connect''], buffered = [], wire = [Message ''a'', Message ''tok'']\<rparr>)
       \<and> close_seen (buffered (deliver 0 \<lparr>actions = [Sent ''connect'', Received ''a''], buffered = [], wire = [Message ''tok'']\<rparr>)) = None
       \<and> pending \<lparr>actions = [Sent ''connect'', Received ''a''], buffered = [], wire = [Message ''tok'']\<rparr> = Message ''tok'' # []
     \<longrightarrow> (\<exists>ws''. run_suspend (deliver 0
        \<lparr>actions = [Sent ''connect'', Received ''a''], buffered = [], wire = [Message ''tok'']\<rparr>)
          = (Inr ''tok'', ws'')
        \<and> actions ws'' = actions \<lparr>actions = [Sent ''connect'', Received ''a''], buffered = [], wire = [Message ''tok'']\<rparr> @ [Sent ''disconnect'', Received ''tok'', Closed]
        \<and> pending ws'' = [])"
    by blast
  with h show ?thesis
    by (simp add: pending_def deliver_def)
qed

subsection \<open>Events that do not decode\<close>

text \<open>
  Claim C9. Every event is decoded and its three fields are read: the decodable events in
  front are printed, and the first event that is not valid JSON or lacks a field ends the
  consumer with the exception of \<open>json.loads\<close> or of the subscript, \<open>JSONDecodeError\<close>,
  \<open>TypeError\<close> or \<open>KeyError\<close> on one of the three keys, never with \<open>CancelledError\<close>. The
  event was read from the connection, nothing is printed for it, and the frames behind it
  stay unread.
\<close>

theorem malformed_event_raises:
  assumes "Closed \<notin> set (actions ws)"
    and "pending ws = map Message evs @ Message bad # rest"
    and "\<forall>m\<in>set evs. decodable loads m"
    and "\<not> decodable loads bad"
    and "\<forall>n. cancel = Some n \<longrightarrow> length evs < n"
  shows "\<exists>x ws' lines.
      process_scores loads str cancel ws out = (Inl (Raise x), ws', out @ lines)
    \<and> print_score loads str bad = Inl x
    \<and> x \<noteq> CancelledError
    \<and> (x = JSONDecodeError \<or> x = TypeError \<or> x = KeyError ''user_id'' \<or> x = KeyError ''pp''
         \<or> x = KeyError ''beatmap_id'')
    \<and> (loads bad = None \<longrightarrow> x = JSONDecodeError)
    \<and> map (print_score loads str) evs = map Inr lines
    \<and> actions ws' = actions ws @ map Received (evs @ [bad])
    \<and> pending ws' = rest"
proof -
  have le: "\<forall>n. cancel = Some n \<longrightarrow> length evs \<le> n"
    using assms(5) by auto
  from events_loop_prefix [OF assms(1,2,3) le, of str out]
  obtain w lines where w: "map (print_score loads str) evs = map Inr lines"
    "actions w = actions ws @ map Received evs" "pending w = Message bad # rest"
    "events_loop loads str cancel ws out =
       events_loop loads str (map_option (\<lambda>n. n - length evs) cancel) w (out @ lines)"
    by blast
  define c' where "c' = map_option (\<lambda>n. n - length evs) cancel"
  have c0: "c' \<noteq> Some 0"
    using assms(5) by (cases cancel) (auto simp: c'_def)
  have "Closed \<notin> set (actions w)"
    using assms(1) w(2) by auto
  with recv_pending [of w] w(3) obtain w' where w': "recv w = (Inr bad, w')" "pending w' = rest"
    "actions w' = actions w @ [Received bad]"
    by auto
  from assms(4) obtain x where x: "print_score loads str bad = Inl x"
    using print_score_Inr [of loads str bad] by (cases "print_score loads str bad") auto
  have "events_loop loads str c' w (out @ lines) = (Inl (Raise x), w', out @ lines)"
    using c0 w'(1) x by (simp add: events_loop.simps [of loads str c' w])
  with w w' x print_score_Inl [OF x] show ?thesis
    unfolding c'_def [symmetric]
    by (intro exI [of _ x] exI [of _ w'] exI [of _ lines]) (simp add: process_scores_eq)
qed

theorem malformed_event_raises_witness:
  "\<exists>x ws' lines.
      process_scores score_of show_val None
        \<lparr>actions = [Sent ''connect''], buffered = [], wire = [Message ''a'', Message ''nopp'', Message ''c'']\<rparr> []
        = (Inl (Raise x), ws', [] @ lines)
    \<and> print_score score_of show_val ''nopp'' = Inl x
    \<and> x \<noteq> CancelledError
    \<and> (x = JSONDecodeError \<or> x = TypeError \<or> x = KeyError ''user_id'' \<or> x = KeyError ''pp''
         \<or> x = KeyError ''beatmap_id'')
    \<and> (score_of ''nopp'' = None \<longrightarrow> x = JSONDecodeError)
    \<and> map (print_score score_of show_val) [''a''] = map Inr lines
    \<and> actions ws' = [Sent ''connect''] @ map Received ([''a''] @ [''nopp''])
    \<and> pending ws' = [Message ''c'']"
  using malformed_event_raises [of "\<lparr>actions = [Sent ''connect''], buffered = [],
      wire = [Message ''a'', Message ''nopp'', Message ''c'']\<rparr>" "[''a'']" "''nopp''" "[Message ''c'']"
      score_of None show_val "[]"]
  by (simp add: pending_def decodable_def score_of_def)

subsection \<open>The blocks of \<open>run\<close>\<close>

lemma events_loop_no_hang:
  "cancel \<noteq> None \<Longrightarrow> fst (events_loop loads str cancel ws out) \<noteq> Inl Hang"
proof (induction loads str cancel ws out rule: events_loop.induct)
  case (1 loads str cancel ws out)
  note unfold = events_loop.simps [of loads str cancel ws out]
  show ?case
  proof (cases "cancel = Some 0")
    case True
    then show ?thesis by (simp add: events_loop.simps [of loads str "Some 0" ws out])
  next
    case c0: False
    obtain a w where rw: "recv ws = (a, w)"
      by (cases "recv ws")
    show ?thesis
    proof (cases a)
      case (Inl s)
      with c0 rw "1.prems" show ?thesis
        by (cases s) (simp_all add: unfold)
    next
      case (Inr m)
      show ?thesis
      proof (cases "print_score loads str m")
        case (Inl x)
        with c0 rw Inr show ?thesis by (simp add: unfold)
      next
        case line: (Inr line)
        have "map_option (\<lambda>n. n - 1) cancel \<noteq> None"
          using "1.prems" by simp
        from "1.IH" [OF c0 rw [symmetric] Inr line this] c0 rw Inr line show ?thesis
          by (simp add: unfold)
      qed
    qed
  qed
qed

lemma run_listen_cases:
  assumes "run_listen e ws out = (r, ws', out')"
  shows "\<exists>ms. actions ws' = actions ws @ map Received ms
      \<and> pending ws = map Message ms @ pending ws'
      \<and> (r = Inr () \<or> (\<exists>x. r = Inl (Raise x) \<and> x \<noteq> CancelledError))"
proof -
  obtain a w o' where p: "events_loop (json_loads e) (format e) (Some (cancel_after e)) ws out = (a, w, o')"
    by (metis prod_cases3)
  from events_loop_trace [OF p] obtain ms where
    t: "actions w = actions ws @ map Received ms" "pending ws = map Message ms @ pending w"
    by blast
  have nh: "a \<noteq> Inl Hang"
    using events_loop_no_hang [of "Some (cancel_after e)" "json_loads e" "format e" ws out] p
    by simp
  from assms p nh have "(ws' = w \<or> ws' = deliver (gap e) w)
      \<and> (r = Inr () \<or> (\<exists>x. r = Inl (Raise x) \<and> x \<noteq> CancelledError))"
    by (auto simp: run_listen_def process_scores_eq split: sum.splits stop.splits if_splits)
  with t show ?thesis
    by (auto simp: actions_deliver pending_deliver)
qed

lemma run_suspend_cases:
  assumes "run_suspend ws = (r, ws')"
  shows "(\<exists>tok. r = Inr tok \<and> pending ws = Message tok # pending ws'
            \<and> Closed \<notin> set (actions ws) \<and> close_seen (buffered ws) = None
            \<and> actions ws' = actions ws @ [Sent ''disconnect'', Received tok, Closed])
       \<or> (\<exists>x. r = Inl (Raise x) \<and> (x = ConnectionClosedOK \<or> x = ConnectionClosedError)
            \<and> (actions ws' = actions ws \<or> actions ws' = actions ws @ [Sent ''disconnect'']))
       \<or> (r = Inl Hang \<and> actions ws' = actions ws @ [Sent ''disconnect''])"
proof -
  obtain a w where s: "send ''disconnect'' ws = (a, w)"
    by (cases "send ''disconnect'' ws")
  from send_cases [OF s] consider
      (fail) "w = ws" "a = Inl (Raise ConnectionClosedOK) \<or> a = Inl (Raise ConnectionClosedError)"
    | (ok) "a = Inr ()" "Closed \<notin> set (actions ws)" "close_seen (buffered ws) = None"
        "w = ws\<lparr>actions := actions ws @ [Sent ''disconnect'']\<rparr>"
    by argo
  then show ?thesis
  proof cases
    case fail
    with s assms show ?thesis by (auto simp: run_suspend_def)
  next
    case ok
    then have w: "actions w = actions ws @ [Sent ''disconnect'']" "pending w = pending ws"
      "Closed \<notin> set (actions w)"
      by (simp_all add: pending_def)
    obtain b w' where rv: "recv w = (b, w')"
      by (cases "recv w")
    have c: "actions (close w') = (if Closed \<in> set (actions w') then actions w' else actions w' @ [Closed])"
      "pending (close w') = pending w'"
      by (simp_all add: close_def pending_def)
    from recv_cases [OF rv] show ?thesis
    proof (elim disjE exE conjE)
      fix m assume "b = Inr m" "pending w = Message m # pending w'"
        "actions w' = actions w @ [Received m]"
      with s ok(1,2,3) rv w c assms show ?thesis
        by (auto simp: run_suspend_def)
    next
      fix st assume st: "b = Inl st" "pending w' = pending w" "actions w' = actions w"
      from rv st(1) have "st = Hang \<or> st = Raise ConnectionClosedOK \<or> st = Raise ConnectionClosedError"
        by (auto simp: recv_def Let_def split: if_splits list.splits frame.splits)
      with s ok(1) rv w st assms show ?thesis
        by (auto simp: run_suspend_def)
    qed
  qed
qed

lemma aexit_actions:
  "actions (aexit r ws) =
     (if r = Inl Hang \<or> Closed \<in> set (actions ws) then actions ws else actions ws @ [Closed])"
  by (auto simp: aexit_def close_def split: sum.splits stop.splits)


lemma connect_cases:
  "(server = None \<and> connect server early = Inl OSError)
   \<or> (\<exists>fs c0. server = Some fs \<and> connect server early = Inr c0 \<and> actions c0 = []
         \<and> buffered c0 = take early fs \<and> pending c0 = fs)"
  by (cases server) (auto simp: connect_def deliver_def pending_def)

lemma send_fresh:
  assumes "actions c0 = []"
  shows "(close_seen (buffered c0) = None \<and> send m c0 = (Inr (), c0\<lparr>actions := [Sent m]\<rparr>))
       \<or> (close_seen (buffered c0) \<noteq> None \<and>
            (send m c0 = (Inl (Raise ConnectionClosedOK), c0)
             \<or> send m c0 = (Inl (Raise ConnectionClosedError), c0)))"
  using assms close_seen_cases [of "buffered c0"]
  by (auto simp: send_def)

lemma run_resume_cases:
  assumes "run_resume e tok out = (r, second, out')"
  shows "(server2 e = None \<and> second = None \<and> r = Inl (Raise OSError))
       \<or> (\<exists>fs c. server2 e = Some fs \<and> second = Some c
            \<and> ((close_seen (take (early2 e) fs) = None
                  \<and> (\<exists>ms tail. actions c = Sent tok # map Received ms @ tail
                        \<and> (if r = Inl Hang then tail = [] else tail = [Closed])))
              \<or> (close_seen (take (early2 e) fs) \<noteq> None \<and> actions c = [Closed]
                  \<and> (r = Inl (Raise ConnectionClosedOK) \<or> r = Inl (Raise ConnectionClosedError)))))"
proof -
  from connect_cases [of "server2 e" "early2 e"] consider
      (refused) "server2 e = None" "connect (server2 e) (early2 e) = Inl OSError"
    | (accepted) fs c0 where "server2 e = Some fs" "connect (server2 e) (early2 e) = Inr c0"
        "actions c0 = []" "buffered c0 = take (early2 e) fs"
    by auto
  then show ?thesis
  proof cases
    case refused
    with assms show ?thesis
      by (simp add: run_resume_def)
  next
    case accepted
    from send_fresh [OF accepted(3), of tok] show ?thesis
    proof (elim disjE conjE)
      assume ok: "close_seen (buffered c0) = None" "send tok c0 = (Inr (), c0\<lparr>actions := [Sent tok]\<rparr>)"
      let ?c1 = "c0\<lparr>actions := [Sent tok]\<rparr>"
      obtain a w o' where p: "events_loop (json_loads e) (format e) None ?c1 out = (a, w, o')"
        by (metis prod_cases3)
      from events_loop_trace [OF p] obtain ms where
        t: "actions w = actions ?c1 @ map Received ms"
        by blast
      then have nc: "Closed \<notin> set (actions w)"
        by auto
      from assms accepted(2) ok(2) p have "r = a \<and> second = Some (aexit a w)"
        by (auto simp: run_resume_def process_scores_eq)
      with t nc accepted(1,4) ok(1) show ?thesis
        by (auto simp: aexit_actions)
    next
      assume f: "close_seen (buffered c0) \<noteq> None" "send tok c0 = (Inl (Raise ConnectionClosedOK), c0)"
      with assms accepted(2) have "r = Inl (Raise ConnectionClosedOK)"
        "second = Some (aexit (Inl (Raise ConnectionClosedOK) :: unit result) c0)"
        by (auto simp: run_resume_def)
      with accepted f(1) show ?thesis
        by (auto simp: aexit_actions)
    next
      assume f: "close_seen (buffered c0) \<noteq> None" "send tok c0 = (Inl (Raise ConnectionClosedError), c0)"
      with assms accepted(2) have "r = Inl (Raise ConnectionClosedError)"
        "second = Some (aexit (Inl (Raise ConnectionClosedError) :: unit result) c0)"
        by (auto simp: run_resume_def)
      with accepted f(1) show ?thesis
        by (auto simp: aexit_actions)
    qed
  qed
qed

text \<open>
  Every run is one of eight: the first connection is refused; the server has closed before
  the intent goes out; the consumer or the send of the notice raises; the answer to the
  notice never comes; the connection is lost while the answer is awaited; the handshake is
  done and the second connection is refused, is alive, or has been closed by the server
  before the score id goes out.
\<close>

lemma run_cases [consumes 1, case_names refused dead raised hang lost no_resume resumed resume_dead]:
  assumes "run e = (r, w)"
  obtains
    (refused) "server1 e = None" "r = Inl (Raise OSError)" "ws1 w = None" "ws2 w = None"
  | (dead) fs c where "server1 e = Some fs" "ws1 w = Some c"
      "close_seen (take (early1 e) fs) \<noteq> None" "actions c = [Closed]" "ws2 w = None"
      "r = Inl (Raise ConnectionClosedOK) \<or> r = Inl (Raise ConnectionClosedError)"
  | (raised) fs c ms x where "server1 e = Some fs" "ws1 w = Some c"
      "close_seen (take (early1 e) fs) = None"
      "actions c = Sent ''connect'' # map Received ms @ [Closed]" "ws2 w = None"
      "r = Inl (Raise x)" "x \<noteq> CancelledError"
  | (hang) fs c ms where "server1 e = Some fs" "ws1 w = Some c"
      "close_seen (take (early1 e) fs) = None"
      "actions c = Sent ''connect'' # map Received ms @ [Sent ''disconnect'']" "ws2 w = None"
      "r = Inl Hang"
  | (lost) fs c ms where "server1 e = Some fs" "ws1 w = Some c"
      "close_seen (take (early1 e) fs) = None"
      "actions c = Sent ''connect'' # map Received ms @ [Sent ''disconnect'', Closed]" "ws2 w = None"
      "r = Inl (Raise ConnectionClosedOK) \<or> r = Inl (Raise ConnectionClosedError)"
  | (no_resume) fs c ms tok rest where "server1 e = Some fs" "ws1 w = Some c"
      "close_seen (take (early1 e) fs) = None"
      "actions c = Sent ''connect'' # map Received ms @ [Sent ''disconnect'', Received tok, Closed]"
      "fs = map Message ms @ Message tok # rest"
      "ws2 w = None" "r = Inl (Raise OSError)" "server2 e = None"
  | (resumed) fs c ms tok rest fs2 c2 ms2 tail2 where "server1 e = Some fs" "ws1 w = Some c"
      "close_seen (take (early1 e) fs) = None"
      "actions c = Sent ''connect'' # map Received ms @ [Sent ''disconnect'', Received tok, Closed]"
      "fs = map Message ms @ Message tok # rest"
      "server2 e = Some fs2" "ws2 w = Some c2" "close_seen (take (early2 e) fs2) = None"
      "actions c2 = Sent tok # map Received ms2 @ tail2"
      "if r = Inl Hang then tail2 = [] else tail2 = [Closed]"
  | (resume_dead) fs c ms tok rest fs2 c2 where "server1 e = Some fs" "ws1 w = Some c"
      "close_seen (take (early1 e) fs) = None"
      "actions c = Sent ''connect'' # map Received ms @ [Sent ''disconnect'', Received tok, Closed]"
      "fs = map Message ms @ Message tok # rest"
      "server2 e = Some fs2" "ws2 w = Some c2" "close_seen (take (early2 e) fs2) \<noteq> None"
      "actions c2 = [Closed]"
      "r = Inl (Raise ConnectionClosedOK) \<or> r = Inl (Raise ConnectionClosedError)"
proof -
  from connect_cases [of "server1 e" "early1 e"] consider
      (none) "server1 e = None" "connect (server1 e) (early1 e) = Inl OSError"
    | (accepted) fs c0 where "server1 e = Some fs" "connect (server1 e) (early1 e) = Inr c0"
        "actions c0 = []" "buffered c0 = take (early1 e) fs" "pending c0 = fs"
    by auto
  then show thesis
  proof cases
    case none
    with assms have "r = Inl (Raise OSError)" "ws1 w = None" "ws2 w = None"
      by (auto simp: run_def)
    with none(1) show thesis
      by (rule_tac refused)
  next
    case accepted
    have body: "run e = (case run_body e c0 of (r, ws', second, out) \<Rightarrow>
         (r, \<lparr>ws1 = Some (aexit r ws'), ws2 = second, stdout = out\<rparr>))"
      using accepted(2) by (simp add: run_def)
    from send_fresh [OF accepted(3), of "''connect''"] consider
        (closed) x where "close_seen (buffered c0) \<noteq> None" "send ''connect'' c0 = (Inl (Raise x), c0)"
          "x = ConnectionClosedOK \<or> x = ConnectionClosedError"
      | (alive) "close_seen (buffered c0) = None"
          "send ''connect'' c0 = (Inr (), c0\<lparr>actions := [Sent ''connect'']\<rparr>)"
      by auto
    then show thesis
    proof cases
      case closed
      then have "run_body e c0 = (Inl (Raise x), c0, None, [])"
        by (simp add: run_body_def)
      with body assms have r: "r = Inl (Raise x)"
        "ws1 w = Some (aexit (Inl (Raise x) :: unit result) c0)" "ws2 w = None"
        by auto
      have act: "actions (aexit (Inl (Raise x) :: unit result) c0) = [Closed]"
        using accepted(3) by (simp add: aexit_actions)
      have cs: "close_seen (take (early1 e) fs) \<noteq> None"
        using closed(1) accepted(4) by simp
      have rr: "r = Inl (Raise ConnectionClosedOK) \<or> r = Inl (Raise ConnectionClosedError)"
        using r(1) closed(3) by auto
      show thesis
        by (rule dead [OF accepted(1) r(2) cs act r(3) rr])
    next
      case alive
      let ?c1 = "c0\<lparr>actions := [Sent ''connect'']\<rparr>"
      note s = alive(2)
      have al: "close_seen (take (early1 e) fs) = None"
        using alive(1) accepted(4) by simp
      obtain a c2 out where l: "run_listen e ?c1 [] = (a, c2, out)"
        by (metis prod_cases3)
      have "pending ?c1 = fs"
        using accepted(5) by (simp add: pending_def)
      with run_listen_cases [OF l] obtain ms where
        ms: "actions c2 = Sent ''connect'' # map Received ms" "fs = map Message ms @ pending c2"
          "a = Inr () \<or> (\<exists>x. a = Inl (Raise x) \<and> x \<noteq> CancelledError)"
        by auto
      have nc: "Closed \<notin> Received ` set ms"
        by auto
      from ms(3) show thesis
      proof
        assume "\<exists>x. a = Inl (Raise x) \<and> x \<noteq> CancelledError"
        then obtain x where x: "a = Inl (Raise x)" "x \<noteq> CancelledError"
          by blast
        with s l have "run_body e c0 = (Inl (Raise x), c2, None, out)"
          by (simp add: run_body_def)
        with body assms have r: "r = Inl (Raise x)"
          "ws1 w = Some (aexit (Inl (Raise x) :: unit result) c2)" "ws2 w = None"
          by auto
        have act: "actions (aexit (Inl (Raise x) :: unit result) c2)
            = Sent ''connect'' # map Received ms @ [Closed]"
          using ms(1) nc by (simp add: aexit_actions)
        show thesis
          by (rule raised [OF accepted(1) r(2) al act r(3) r(1) x(2)])
      next
        assume a: "a = Inr ()"
        obtain b c3 where su: "run_suspend c2 = (b, c3)"
          by (cases "run_suspend c2")
        from run_suspend_cases [OF su] consider
            (tok) tok where "b = Inr tok" "pending c2 = Message tok # pending c3"
              "actions c3 = actions c2 @ [Sent ''disconnect'', Received tok, Closed]"
          | (raise) x where "b = Inl (Raise x)" "x = ConnectionClosedOK \<or> x = ConnectionClosedError"
              "actions c3 = actions c2 \<or> actions c3 = actions c2 @ [Sent ''disconnect'']"
          | (silent) "b = Inl Hang" "actions c3 = actions c2 @ [Sent ''disconnect'']"
          by blast
        then show thesis
        proof cases
          case silent
          with s l a su have "run_body e c0 = (Inl Hang, c3, None, out)"
            by (simp add: run_body_def)
          with body assms have r: "r = Inl Hang" "ws1 w = Some (aexit (Inl Hang :: unit result) c3)"
            "ws2 w = None"
            by auto
          have act: "actions (aexit (Inl Hang :: unit result) c3)
              = Sent ''connect'' # map Received ms @ [Sent ''disconnect'']"
            using ms(1) silent(2) by (simp add: aexit_actions)
          show thesis
            by (rule hang [OF accepted(1) r(2) al act r(3) r(1)])
        next
          case raise
          with s l a su have "run_body e c0 = (Inl (Raise x), c3, None, out)"
            by (simp add: run_body_def)
          with body assms have r: "r = Inl (Raise x)"
            "ws1 w = Some (aexit (Inl (Raise x) :: unit result) c3)" "ws2 w = None"
            by auto
          have rr: "r = Inl (Raise ConnectionClosedOK) \<or> r = Inl (Raise ConnectionClosedError)"
            using r(1) raise(2) by auto
          have xc: "x \<noteq> CancelledError"
            using raise(2) by auto
          from raise(3) show thesis
          proof
            assume "actions c3 = actions c2"
            with ms(1) nc have act: "actions (aexit (Inl (Raise x) :: unit result) c3)
                = Sent ''connect'' # map Received ms @ [Closed]"
              by (simp add: aexit_actions)
            show thesis
              by (rule raised [OF accepted(1) r(2) al act r(3) r(1) xc])
          next
            assume "actions c3 = actions c2 @ [Sent ''disconnect'']"
            with ms(1) nc have act: "actions (aexit (Inl (Raise x) :: unit result) c3)
                = Sent ''connect'' # map Received ms @ [Sent ''disconnect'', Closed]"
              by (simp add: aexit_actions)
            show thesis
              by (rule lost [OF accepted(1) r(2) al act r(3) rr])
          qed
        next
          case tok
          obtain r2 second out2 where rs: "run_resume e tok out = (r2, second, out2)"
            by (metis prod_cases3)
          with s l a su tok(1) have "run_body e c0 = (r2, c3, second, out2)"
            by (simp add: run_body_def)
          with body assms have r: "r2 = r" "ws1 w = Some (aexit r2 c3)" "second = ws2 w"
            by auto
          have act: "actions (aexit r2 c3) = Sent ''connect'' # map Received ms
              @ [Sent ''disconnect'', Received tok, Closed]"
            using tok(3) ms(1) nc by (simp add: aexit_actions)
          have fs: "fs = map Message ms @ Message tok # pending c3"
            using ms(2) tok(2) by simp
          from run_resume_cases [OF rs] consider
              (off) "server2 e = None" "ws2 w = None" "r = Inl (Raise OSError)"
            | (on) fs2 c2' ms2 tail2 where "server2 e = Some fs2" "ws2 w = Some c2'"
                "close_seen (take (early2 e) fs2) = None"
                "actions c2' = Sent tok # map Received ms2 @ tail2"
                "if r = Inl Hang then tail2 = [] else tail2 = [Closed]"
            | (shut) fs2 c2' where "server2 e = Some fs2" "ws2 w = Some c2'"
                "close_seen (take (early2 e) fs2) \<noteq> None" "actions c2' = [Closed]"
                "r = Inl (Raise ConnectionClosedOK) \<or> r = Inl (Raise ConnectionClosedError)"
            unfolding r(1) r(3) by (elim disjE exE conjE) blast+
          then show thesis
          proof cases
            case off
            show thesis
              by (rule no_resume [OF accepted(1) r(2) al act fs off(2) off(3) off(1)])
          next
            case on
            show thesis
              by (rule resumed [OF accepted(1) r(2) al act fs on])
          next
            case shut
            show thesis
              by (rule resume_dead [OF accepted(1) r(2) al act fs shut])
          qed
        qed
      qed
    qed
  qed
qed

lemmas run_evaluation = evaluation run_def run_body_def run_resume_def connect_def aexit_def
  example_env_def closed_env_def lost_env_def sent_def received_def

lemma example_run:
  "run example_env =
     (Inr (),
      \<lparr>ws1 = Some \<lparr>actions = [Sent ''connect'', Received ''a'', Received ''b'',
                      Sent ''disconnect'', Received ''tok'', Closed],
                    buffered = [], wire = []\<rparr>,
       ws2 = Some \<lparr>actions = [Sent ''tok'', Received ''c'', Closed], buffered = [CloseOK], wire = []\<rparr>,
       stdout = [''2 got app on 75'', ''2 got bpp on 75'', ''2 got cpp on 75'']\<rparr>)"
  by (simp add: run_evaluation)

lemma received_split_unique:
  assumes "map Received a @ t = map Received b @ u"
    and "case t of [] \<Rightarrow> True | x # xs \<Rightarrow> \<forall>m. x \<noteq> Received m"
    and "case u of [] \<Rightarrow> True | x # xs \<Rightarrow> \<forall>m. x \<noteq> Received m"
  shows "a = b \<and> t = u"
  using assms
proof (induction a arbitrary: b)
  case Nil
  then show ?case
    by (cases b) (auto split: list.splits)
next
  case (Cons m a)
  then show ?case
    by (cases b) (auto split: list.splits)
qed

lemma first_session:
  assumes "connect (server1 e) (early1 e) = Inr c0" "send ''connect'' c0 = (Inr (), c1)"
    "run_listen e c1 [] = (Inr (), ws, out)" "run_suspend ws = (Inr tok, ws')"
  shows "\<exists>r second out'. run_resume e tok out = (r, second, out')
            \<and> run e = (r, \<lparr>ws1 = Some ws', ws2 = second, stdout = out'\<rparr>)"
    and "\<exists>ms. actions ws' = Sent ''connect'' # map Received ms @ [Sent ''disconnect'', Received tok, Closed]"
proof -
  from run_suspend_cases [OF assms(4)]
  have a': "actions ws' = actions ws @ [Sent ''disconnect'', Received tok, Closed]"
    by auto
  then have cl: "aexit r ws' = ws'" for r :: "unit result"
    by (simp add: aexit_def close_def split: sum.splits stop.splits)
  obtain r second out' where rs: "run_resume e tok out = (r, second, out')"
    by (metis prod_cases3)
  with assms have "run_body e c0 = (r, ws', second, out')"
    by (simp add: run_body_def)
  with assms(1) cl have "run e = (r, \<lparr>ws1 = Some ws', ws2 = second, stdout = out'\<rparr>)"
    by (simp add: run_def)
  with rs show "\<exists>r second out'. run_resume e tok out = (r, second, out')
            \<and> run e = (r, \<lparr>ws1 = Some ws', ws2 = second, stdout = out'\<rparr>)"
    by blast
  from connect_cases [of "server1 e" "early1 e"] assms(1) have "actions c0 = []"
    by auto
  with send_cases [OF assms(2)] have "actions c1 = [Sent ''connect'']"
    by auto
  with run_listen_cases [OF assms(3)] obtain ms where "actions ws = Sent ''connect'' # map Received ms"
    by auto
  with a' show "\<exists>ms. actions ws' = Sent ''connect'' # map Received ms @ [Sent ''disconnect'', Received tok, Closed]"
    by auto
qed

lemma sent_intent: "actions c = Sent tok # map Received ms @ tail \<Longrightarrow> tail = [] \<or> tail = [Closed]
    \<Longrightarrow> sent c = [tok]"
  by (auto simp: sent_def sent_Received)

subsection \<open>The disconnect handshake\<close>



subsection \<open>A connection lost during the handshake\<close>




subsection \<open>The intent is the first thing on a connection\<close>

text \<open>
  Claim C2, as amended. On every connection that \<open>run\<close> opens, the first thing it does is
  the one send of the intent, \<open>connect\<close> on the first connection and the score id on the
  second. When no close of the server has arrived by then, the intent goes out, all reads
  come after it, and nothing else is sent before the disconnect notice or the close; on
  the second connection it is the only message ever sent. When the server has closed
  already, the send raises \<open>ConnectionClosed\<close>: nothing is sent and nothing is read, and
  the connection is closed. After a completed handshake the second connection is opened
  whenever the server accepts it.
\<close>

theorem intent_sent_first:
  assumes "run e = (r, w)"
  shows "(\<forall>fs. server1 e = Some fs \<longrightarrow>
            (\<exists>c. ws1 w = Some c
               \<and> (if close_seen (take (early1 e) fs) = None
                   then \<exists>ms tail. actions c = Sent ''connect'' # map Received ms @ tail
                          \<and> (tail = [Closed] \<or> (\<exists>t. tail = Sent ''disconnect'' # t))
                   else actions c = [Closed] \<and> sent c = []
                          \<and> (r = Inl (Raise ConnectionClosedOK) \<or> r = Inl (Raise ConnectionClosedError)))))
       \<and> (\<forall>c2. ws2 w = Some c2 \<longrightarrow>
            (\<exists>fs2. server2 e = Some fs2
               \<and> (if close_seen (take (early2 e) fs2) = None
                   then \<exists>tok ms2 tail2. actions c2 = Sent tok # map Received ms2 @ tail2
                          \<and> (tail2 = [] \<or> tail2 = [Closed]) \<and> sent c2 = [tok]
                   else actions c2 = [Closed] \<and> sent c2 = [])))
       \<and> (\<forall>c ms tok fs2. ws1 w = Some c
              \<and> actions c = Sent ''connect'' # map Received ms @ [Sent ''disconnect'', Received tok, Closed]
              \<and> server2 e = Some fs2
            \<longrightarrow> (\<exists>c2. ws2 w = Some c2
                  \<and> (if close_seen (take (early2 e) fs2) = None
                      then \<exists>ms2 tail2. actions c2 = Sent tok # map Received ms2 @ tail2
                             \<and> (tail2 = [] \<or> tail2 = [Closed])
                      else actions c2 = [Closed])))"
proof -
  have alive: "\<exists>c. ws1 w = Some c
               \<and> (if close_seen (take (early1 e) fs) = None
                   then \<exists>ms tail. actions c = Sent ''connect'' # map Received ms @ tail
                          \<and> (tail = [Closed] \<or> (\<exists>t. tail = Sent ''disconnect'' # t))
                   else actions c = [Closed] \<and> sent c = []
                          \<and> (r = Inl (Raise ConnectionClosedOK) \<or> r = Inl (Raise ConnectionClosedError)))"
    if "server1 e = Some fs'" "fs' = fs" "ws1 w = Some c" "close_seen (take (early1 e) fs') = None"
      "actions c = Sent ''connect'' # map Received ms @ tail"
      "tail = [Closed] \<or> (\<exists>t. tail = Sent ''disconnect'' # t)" for fs fs' c ms tail
    using that by (intro exI [of _ c]) auto
  have first: "\<exists>c. ws1 w = Some c
               \<and> (if close_seen (take (early1 e) fs) = None
                   then \<exists>ms tail. actions c = Sent ''connect'' # map Received ms @ tail
                          \<and> (tail = [Closed] \<or> (\<exists>t. tail = Sent ''disconnect'' # t))
                   else actions c = [Closed] \<and> sent c = []
                          \<and> (r = Inl (Raise ConnectionClosedOK) \<or> r = Inl (Raise ConnectionClosedError)))"
    if s1: "server1 e = Some fs" for fs
    using assms
  proof (cases rule: run_cases)
    case refused
    with s1 show ?thesis by simp
  next
    case (dead fs' c)
    with s1 show ?thesis
      by (intro exI [of _ c]) (auto simp: sent_def)
  next
    case (raised fs' c ms x)
    with s1 show ?thesis by (intro alive [of fs' fs c ms "[Closed]"]) simp_all
  next
    case (hang fs' c ms)
    with s1 show ?thesis by (intro alive [of fs' fs c ms "[Sent ''disconnect'']"]) simp_all
  next
    case (lost fs' c ms)
    with s1 show ?thesis by (intro alive [of fs' fs c ms "[Sent ''disconnect'', Closed]"]) simp_all
  next
    case (no_resume fs' c ms tok rest)
    with s1 show ?thesis
      by (intro alive [of fs' fs c ms "[Sent ''disconnect'', Received tok, Closed]"]) simp_all
  next
    case (resumed fs' c ms tok rest fs2 c2 ms2 tail2)
    with s1 show ?thesis
      by (intro alive [of fs' fs c ms "[Sent ''disconnect'', Received tok, Closed]"]) simp_all
  next
    case (resume_dead fs' c ms tok rest fs2 c2)
    with s1 show ?thesis
      by (intro alive [of fs' fs c ms "[Sent ''disconnect'', Received tok, Closed]"]) simp_all
  qed
  have conn2: "\<exists>c2. ws2 w = Some c2
                  \<and> (if close_seen (take (early2 e) fs2) = None
                      then \<exists>ms2 tail2. actions c2 = Sent tok # map Received ms2 @ tail2
                             \<and> (tail2 = [] \<or> tail2 = [Closed]) \<and> sent c2 = [tok]
                      else actions c2 = [Closed] \<and> sent c2 = [])"
    if "server2 e = Some fs2"
      "(\<exists>c2 ms2 tail2. ws2 w = Some c2 \<and> close_seen (take (early2 e) fs2) = None
          \<and> actions c2 = Sent tok # map Received ms2 @ tail2 \<and> (tail2 = [] \<or> tail2 = [Closed]))
       \<or> (\<exists>c2. ws2 w = Some c2 \<and> close_seen (take (early2 e) fs2) \<noteq> None \<and> actions c2 = [Closed])"
    for fs2 tok
    using that(2)
  proof
    assume "\<exists>c2 ms2 tail2. ws2 w = Some c2 \<and> close_seen (take (early2 e) fs2) = None
          \<and> actions c2 = Sent tok # map Received ms2 @ tail2 \<and> (tail2 = [] \<or> tail2 = [Closed])"
    then obtain c2 ms2 tail2 where a: "ws2 w = Some c2" "close_seen (take (early2 e) fs2) = None"
      "actions c2 = Sent tok # map Received ms2 @ tail2" "tail2 = [] \<or> tail2 = [Closed]"
      by blast
    from sent_intent [OF a(3,4)] a show ?thesis
      by (intro exI [of _ c2]) auto
  next
    assume "\<exists>c2. ws2 w = Some c2 \<and> close_seen (take (early2 e) fs2) \<noteq> None \<and> actions c2 = [Closed]"
    then show ?thesis
      by (auto simp: sent_def)
  qed
  have resumed_shape: "(\<exists>c2 ms2 tail2. ws2 w = Some c2 \<and> close_seen (take (early2 e) fs2) = None
          \<and> actions c2 = Sent tok # map Received ms2 @ tail2 \<and> (tail2 = [] \<or> tail2 = [Closed]))
       \<or> (\<exists>c2. ws2 w = Some c2 \<and> close_seen (take (early2 e) fs2) \<noteq> None \<and> actions c2 = [Closed])"
    if "ws2 w = Some c2" "close_seen (take (early2 e) fs2) = None"
      "actions c2 = Sent tok # map Received ms2 @ tail2"
      "if r = Inl Hang then tail2 = [] else tail2 = [Closed]" for c2 fs2 tok ms2 tail2
  proof -
    from that(4) have "tail2 = [] \<or> tail2 = [Closed]"
      by (simp split: if_splits)
    with that(1,2,3) show ?thesis
      by blast
  qed
  have second: "\<exists>fs2. server2 e = Some fs2
               \<and> (if close_seen (take (early2 e) fs2) = None
                   then \<exists>tok ms2 tail2. actions c2 = Sent tok # map Received ms2 @ tail2
                          \<and> (tail2 = [] \<or> tail2 = [Closed]) \<and> sent c2 = [tok]
                   else actions c2 = [Closed] \<and> sent c2 = [])"
    if c2: "ws2 w = Some c2" for c2
    using assms
  proof (cases rule: run_cases)
    case (resumed fs c ms tok rest fs2 c2' ms2 tail2)
    from conn2 [OF resumed(6) resumed_shape [OF resumed(7,8,9,10)]] c2 resumed(6) show ?thesis
      by (intro exI [of _ fs2]) (auto split: if_splits)
  next
    case (resume_dead fs c ms tok rest fs2 c2')
    with c2 show ?thesis
      by (intro exI [of _ fs2]) (auto simp: sent_def)
  qed (use c2 in simp_all)
  have third: "\<exists>c2. ws2 w = Some c2
                  \<and> (if close_seen (take (early2 e) fs2) = None
                      then \<exists>ms2 tail2. actions c2 = Sent tok # map Received ms2 @ tail2
                             \<and> (tail2 = [] \<or> tail2 = [Closed])
                      else actions c2 = [Closed])"
    if h: "ws1 w = Some c
              \<and> actions c = Sent ''connect'' # map Received ms @ [Sent ''disconnect'', Received tok, Closed]
              \<and> server2 e = Some fs2"
    for c ms tok fs2
  proof -
    from h have c: "ws1 w = Some c"
      and a: "actions c = Sent ''connect'' # map Received ms @ [Sent ''disconnect'', Received tok, Closed]"
      and s2: "server2 e = Some fs2"
      by simp_all
    have u: "ms' = ms \<and> tail = [Sent ''disconnect'', Received tok, Closed]"
      if "ws1 w = Some c'" "actions c' = Sent ''connect'' # map Received ms' @ tail"
        "case tail of [] \<Rightarrow> True | x # xs \<Rightarrow> \<forall>m. x \<noteq> Received m" for c' ms' tail
      using received_split_unique [of ms' tail ms "[Sent ''disconnect'', Received tok, Closed]"]
        that a c by simp
    from assms show ?thesis
    proof (cases rule: run_cases)
      case refused
      with c show ?thesis by simp
    next
      case (dead fs c')
      with c a show ?thesis by simp
    next
      case (raised fs c' ms' x)
      from u [OF raised(2,4)] show ?thesis by simp
    next
      case (hang fs c' ms')
      from u [OF hang(2,4)] show ?thesis by simp
    next
      case (lost fs c' ms')
      from u [OF lost(2,4)] show ?thesis by simp
    next
      case (no_resume fs c' ms' tok' rest)
      with s2 show ?thesis by simp
    next
      case (resumed fs c' ms' tok' rest fs2' c2 ms2 tail2)
      from u [OF resumed(2,4)] have t: "tok' = tok" by simp
      from resumed(6) s2 have f: "fs2' = fs2" by simp
      from resumed(10) have "tail2 = [] \<or> tail2 = [Closed]"
        by (simp split: if_splits)
      with resumed(7,8,9) show ?thesis
        unfolding t f by (intro exI [of _ c2]) auto
    next
      case (resume_dead fs c' ms' tok' rest fs2' c2)
      from resume_dead(6) s2 have f: "fs2' = fs2" by simp
      from resume_dead(7,8,9) show ?thesis
        unfolding f by (intro exI [of _ c2]) auto
    qed
  qed
  from first second third show ?thesis
    by blast
qed

theorem intent_sent_first_witness:
  "(\<exists>c ms tail. ws1 (snd (run example_env)) = Some c
        \<and> actions c = Sent ''connect'' # map Received ms @ tail
        \<and> (tail = [Closed] \<or> (\<exists>t. tail = Sent ''disconnect'' # t)))
   \<and> (\<exists>c2 tok ms2 tail2. ws2 (snd (run example_env)) = Some c2
        \<and> actions c2 = Sent tok # map Received ms2 @ tail2
        \<and> (tail2 = [] \<or> tail2 = [Closed]) \<and> sent c2 = [tok])"
proof -
  have r: "run example_env = (fst (run example_env), snd (run example_env))"
    by simp
  have s1: "server1 example_env = Some [Message ''a'', Message ''b'', Message ''tok'']"
    "close_seen (take (early1 example_env) [Message ''a'', Message ''b'', Message ''tok'']) = None"
    by (simp_all add: example_env_def)
  have s2: "server2 example_env = Some [Message ''c'', CloseOK]"
    "close_seen (take (early2 example_env) [Message ''c'', CloseOK]) = None"
    by (simp_all add: example_env_def)
  have c2: "ws2 (snd (run example_env))
      = Some \<lparr>actions = [Sent ''tok'', Received ''c'', Closed], buffered = [CloseOK], wire = []\<rparr>"
    by (simp add: example_run)
  from intent_sent_first [OF r] s1 have
    "\<exists>c ms tail. ws1 (snd (run example_env)) = Some c
        \<and> actions c = Sent ''connect'' # map Received ms @ tail
        \<and> (tail = [Closed] \<or> (\<exists>t. tail = Sent ''disconnect'' # t))"
    by (elim conjE allE [of _ "[Message ''a'', Message ''b'', Message ''tok'']"]) auto
  moreover from intent_sent_first [OF r] c2 s2 have
    "\<exists>c2 tok ms2 tail2. ws2 (snd (run example_env)) = Some c2
        \<and> actions c2 = Sent tok # map Received ms2 @ tail2
        \<and> (tail2 = [] \<or> tail2 = [Closed]) \<and> sent c2 = [tok]"
    by (elim conjE allE [of _ "\<lparr>actions = [Sent ''tok'', Received ''c'', Closed],
          buffered = [CloseOK], wire = []\<rparr>"]) auto
  ultimately show ?thesis
    by blast
qed

text \<open>
  As the claim is written, exactly one message sent by every negotiation, it fails: when
  the server closes right after the opening handshake, the send of line 12 raises and the
  connection has carried no message at all.
\<close>

theorem intent_sent_first_counterexample:
  "fst (run closed_env) = Inl (Raise ConnectionClosedError)
   \<and> map_option actions (ws1 (snd (run closed_env))) = Some [Closed]
   \<and> map_option sent (ws1 (snd (run closed_env))) = Some []
   \<and> ws2 (snd (run closed_env)) = None"
  by (simp add: run_evaluation)

subsection \<open>The score id goes back as it came\<close>

text \<open>
  Claim C3. When the handshake of lines 25 to 29 has returned the string \<open>tok\<close> and the
  second connection is accepted and alive, \<open>run\<close> opens it and the first thing on it is the
  send of \<open>tok\<close>, the only message it ever sends there. Conversely, whenever \<open>run\<close> has
  opened the second connection, the first connection has received some \<open>tok\<close> in answer to
  \<open>disconnect\<close>, the frame that the server put on the wire behind the consumed events, and
  the second connection either starts with the send of that same \<open>tok\<close> or was closed
  before anything could be sent. This holds for every string: the score id is never
  inspected.
\<close>

theorem checkpoint_roundtrip:
  "(\<forall>c0 c1 ws out tok ws' fs2.
       connect (server1 e) (early1 e) = Inr c0 \<and> send ''connect'' c0 = (Inr (), c1)
       \<and> run_listen e c1 [] = (Inr (), ws, out) \<and> run_suspend ws = (Inr tok, ws')
       \<and> server2 e = Some fs2 \<and> close_seen (take (early2 e) fs2) = None
     \<longrightarrow> (\<exists>r w c2 more. run e = (r, w) \<and> ws1 w = Some ws' \<and> ws2 w = Some c2
            \<and> actions c2 = Sent tok # more \<and> sent c2 = [tok]))
 \<and> (\<forall>r w c2. run e = (r, w) \<and> ws2 w = Some c2 \<longrightarrow>
       (\<exists>fs c1 ms tok rest. server1 e = Some fs \<and> fs = map Message ms @ Message tok # rest
          \<and> ws1 w = Some c1
          \<and> actions c1 = Sent ''connect'' # map Received ms @ [Sent ''disconnect'', Received tok, Closed]
          \<and> (actions c2 = [Closed] \<or> (\<exists>more. actions c2 = Sent tok # more \<and> sent c2 = [tok]))))"
proof -
  have forward: "\<exists>r w c2 more. run e = (r, w) \<and> ws1 w = Some ws' \<and> ws2 w = Some c2
            \<and> actions c2 = Sent tok # more \<and> sent c2 = [tok]"
    if h: "connect (server1 e) (early1 e) = Inr c0 \<and> send ''connect'' c0 = (Inr (), c1)
       \<and> run_listen e c1 [] = (Inr (), ws, out) \<and> run_suspend ws = (Inr tok, ws')
       \<and> server2 e = Some fs2 \<and> close_seen (take (early2 e) fs2) = None"
    for c0 c1 ws out tok ws' fs2
  proof -
    from h first_session(1) [of e c0 c1 ws out tok ws'] obtain r second out' where
      rs: "run_resume e tok out = (r, second, out')"
        "run e = (r, \<lparr>ws1 = Some ws', ws2 = second, stdout = out'\<rparr>)"
      by blast
    from run_resume_cases [OF rs(1)] h obtain c2 ms tail where
      c2: "second = Some c2" "actions c2 = Sent tok # map Received ms @ tail"
        "tail = [] \<or> tail = [Closed]"
      by (auto split: if_splits)
    from sent_intent [OF c2(2,3)] rs(2) c2(1,2) show ?thesis
      by (intro exI [of _ r] exI [of _ "\<lparr>ws1 = Some ws', ws2 = second, stdout = out'\<rparr>"]
          exI [of _ c2] exI [of _ "map Received ms @ tail"]) simp
  qed
  have backward: "\<exists>fs c1 ms tok rest. server1 e = Some fs \<and> fs = map Message ms @ Message tok # rest
          \<and> ws1 w = Some c1
          \<and> actions c1 = Sent ''connect'' # map Received ms @ [Sent ''disconnect'', Received tok, Closed]
          \<and> (actions c2 = [Closed] \<or> (\<exists>more. actions c2 = Sent tok # more \<and> sent c2 = [tok]))"
    if h: "run e = (r, w) \<and> ws2 w = Some c2" for r w c2
  proof -
    from h have rw: "run e = (r, w)" and c2: "ws2 w = Some c2"
      by simp_all
    from rw show ?thesis
    proof (cases rule: run_cases)
      case (resumed fs c ms tok rest fs2 c2' ms2 tail2)
      from resumed(7) c2 have eq: "c2' = c2"
        by simp
      from resumed(10) have "tail2 = [] \<or> tail2 = [Closed]"
        by (simp split: if_splits)
      from sent_intent [OF resumed(9) this] resumed(9) have
        "\<exists>more. actions c2 = Sent tok # more \<and> sent c2 = [tok]"
        unfolding eq by blast
      with resumed(1,2,4,5) show ?thesis
        by blast
    next
      case (resume_dead fs c ms tok rest fs2 c2')
      from resume_dead(7) c2 have eq: "c2' = c2"
        by simp
      from resume_dead(1,2,4,5) resume_dead(9) [unfolded eq] show ?thesis
        by blast
    qed (use c2 in simp_all)
  qed
  from forward backward show ?thesis
    by blast
qed

theorem checkpoint_roundtrip_witness:
  "\<exists>r w c2 more. run example_env = (r, w)
     \<and> ws1 w = Some \<lparr>actions = [Sent ''connect'', Received ''a'', Received ''b'',
                        Sent ''disconnect'', Received ''tok'', Closed], buffered = [], wire = []\<rparr>
     \<and> ws2 w = Some c2 \<and> actions c2 = Sent ''tok'' # more \<and> sent c2 = [''tok'']"
proof -
  let ?c0 = "\<lparr>actions = [], buffered = [], wire = [Message ''a'', Message ''b'', Message ''tok'']\<rparr>"
  let ?c1 = "\<lparr>actions = [Sent ''connect''], buffered = [],
      wire = [Message ''a'', Message ''b'', Message ''tok'']\<rparr>"
  let ?ws = "\<lparr>actions = [Sent ''connect'', Received ''a'', Received ''b''], buffered = [],
      wire = [Message ''tok'']\<rparr>"
  let ?ws' = "\<lparr>actions = [Sent ''connect'', Received ''a'', Received ''b'',
      Sent ''disconnect'', Received ''tok'', Closed], buffered = [], wire = []\<rparr>"
  have h: "connect (server1 example_env) (early1 example_env) = Inr ?c0
      \<and> send ''connect'' ?c0 = (Inr (), ?c1)
      \<and> run_listen example_env ?c1 [] = (Inr (), ?ws, [''2 got app on 75'', ''2 got bpp on 75''])
      \<and> run_suspend ?ws = (Inr ''tok'', ?ws')
      \<and> server2 example_env = Some [Message ''c'', CloseOK]
      \<and> close_seen (take (early2 example_env) [Message ''c'', CloseOK]) = None"
    by (simp add: run_evaluation)
  from checkpoint_roundtrip [of example_env] h show ?thesis
    by blast
qed

subsection \<open>Consuming sends nothing\<close>

text \<open>
  Claim C10. \<open>process_scores\<close> leaves what was sent on the connection as it found it, and
  does not close it. On the first connection \<open>run\<close> sends nothing but \<open>connect\<close> and then
  \<open>disconnect\<close>: nothing at all exactly when the server had closed before the intent, and
  both, no more, whenever the handshake of lines 25 to 29 was completed.
\<close>

theorem consumption_sends_nothing:
  "(\<forall>r ws' out'. process_scores loads str cancel ws out = (r, ws', out') \<longrightarrow>
       sent ws' = sent ws \<and> (Closed \<in> set (actions ws')) = (Closed \<in> set (actions ws)))
 \<and> (\<forall>r w c. run e = (r, w) \<and> ws1 w = Some c \<longrightarrow>
       (sent c = [] \<or> sent c = [''connect''] \<or> sent c = [''connect'', ''disconnect''])
     \<and> (ws2 w \<noteq> None \<longrightarrow> sent c = [''connect'', ''disconnect''])
     \<and> ((sent c = []) = (\<exists>fs. server1 e = Some fs \<and> close_seen (take (early1 e) fs) \<noteq> None)))
 \<and> (\<forall>c0 c1 ws0 out0 tok ws'.
       connect (server1 e) (early1 e) = Inr c0 \<and> send ''connect'' c0 = (Inr (), c1)
       \<and> run_listen e c1 [] = (Inr (), ws0, out0) \<and> run_suspend ws0 = (Inr tok, ws')
     \<longrightarrow> (\<exists>r w. run e = (r, w) \<and> ws1 w = Some ws' \<and> sent ws' = [''connect'', ''disconnect'']))"
proof -
  have frame: "sent ws' = sent ws \<and> (Closed \<in> set (actions ws')) = (Closed \<in> set (actions ws))"
    if "process_scores loads str cancel ws out = (r, ws', out')" for r ws' out'
  proof -
    from that have "events_loop loads str cancel ws out = (r, ws', out')"
      by (simp add: process_scores_eq)
    from events_loop_trace [OF this] obtain ms where a: "actions ws' = actions ws @ map Received ms"
      by blast
    from sent_append [OF a] have "sent ws' = sent ws"
      by (simp add: sent_Received)
    moreover from a have "(Closed \<in> set (actions ws')) = (Closed \<in> set (actions ws))"
      by auto
    ultimately show ?thesis
      by simp
  qed
  have whole: "(sent c = [] \<or> sent c = [''connect''] \<or> sent c = [''connect'', ''disconnect''])
     \<and> (ws2 w \<noteq> None \<longrightarrow> sent c = [''connect'', ''disconnect''])
     \<and> ((sent c = []) = (\<exists>fs. server1 e = Some fs \<and> close_seen (take (early1 e) fs) \<noteq> None))"
    if h: "run e = (r, w) \<and> ws1 w = Some c" for r w c
  proof -
    from h have rw: "run e = (r, w)" and c: "ws1 w = Some c"
      by simp_all
    from rw show ?thesis
    proof (cases rule: run_cases)
      case refused
      with c show ?thesis by simp
    next
      case (dead fs c')
      with c show ?thesis by (auto simp: sent_def)
    next
      case (raised fs c' ms x)
      with c show ?thesis by (auto simp: sent_def sent_Received)
    next
      case (hang fs c' ms)
      with c show ?thesis by (auto simp: sent_def sent_Received)
    next
      case (lost fs c' ms)
      with c show ?thesis by (auto simp: sent_def sent_Received)
    next
      case (no_resume fs c' ms tok rest)
      with c show ?thesis by (auto simp: sent_def sent_Received)
    next
      case (resumed fs c' ms tok rest fs2 c2 ms2 tail2)
      from resumed(1,2,3,4) c show ?thesis by (auto simp: sent_def sent_Received)
    next
      case (resume_dead fs c' ms tok rest fs2 c2)
      from resume_dead(1,2,3,4) c show ?thesis by (auto simp: sent_def sent_Received)
    qed
  qed
  have complete: "\<exists>r w. run e = (r, w) \<and> ws1 w = Some ws' \<and> sent ws' = [''connect'', ''disconnect'']"
    if h: "connect (server1 e) (early1 e) = Inr c0 \<and> send ''connect'' c0 = (Inr (), c1)
       \<and> run_listen e c1 [] = (Inr (), ws0, out0) \<and> run_suspend ws0 = (Inr tok, ws')"
    for c0 c1 ws0 out0 tok ws'
  proof -
    from h first_session [of e c0 c1 ws0 out0 tok ws'] obtain r second out' ms where
      "run e = (r, \<lparr>ws1 = Some ws', ws2 = second, stdout = out'\<rparr>)"
      "actions ws' = Sent ''connect'' # map Received ms @ [Sent ''disconnect'', Received tok, Closed]"
      by blast
    then show ?thesis
      by (intro exI [of _ r] exI [of _ "\<lparr>ws1 = Some ws', ws2 = second, stdout = out'\<rparr>"])
        (simp add: sent_def sent_Received)
  qed
  from frame whole complete show ?thesis
    by blast
qed

theorem consumption_sends_nothing_witness:
  "sent (fst (snd (process_scores score_of show_val (Some 2)
       \<lparr>actions = [Sent ''connect''], buffered = [],
          wire = [Message ''a'', Message ''b'', Message ''tok'']\<rparr> [])))
     = [''connect'']
   \<and> (\<exists>r w c. run example_env = (r, w) \<and> ws1 w = Some c \<and> sent c = [''connect'', ''disconnect''])"
proof -
  let ?c0 = "\<lparr>actions = [], buffered = [], wire = [Message ''a'', Message ''b'', Message ''tok'']\<rparr>"
  let ?c1 = "\<lparr>actions = [Sent ''connect''], buffered = [],
      wire = [Message ''a'', Message ''b'', Message ''tok'']\<rparr>"
  let ?ws = "\<lparr>actions = [Sent ''connect'', Received ''a'', Received ''b''], buffered = [],
      wire = [Message ''tok'']\<rparr>"
  let ?ws' = "\<lparr>actions = [Sent ''connect'', Received ''a'', Received ''b'',
      Sent ''disconnect'', Received ''tok'', Closed], buffered = [], wire = []\<rparr>"
  obtain r ws' out' where p: "process_scores score_of show_val (Some 2) ?c1 [] = (r, ws', out')"
    by (metis prod_cases3)
  have s0: "sent ?c1 = [''connect'']"
    by (simp add: sent_def)
  have h: "connect (server1 example_env) (early1 example_env) = Inr ?c0
      \<and> send ''connect'' ?c0 = (Inr (), ?c1)
      \<and> run_listen example_env ?c1 [] = (Inr (), ?ws, [''2 got app on 75'', ''2 got bpp on 75''])
      \<and> run_suspend ?ws = (Inr ''tok'', ?ws')"
    by (simp add: run_evaluation)
  note t = consumption_sends_nothing [of score_of show_val "Some 2" ?c1 "[]" example_env]
  from t p s0 have "sent (fst (snd (process_scores score_of show_val (Some 2) ?c1 []))) = [''connect'']"
    by (metis fst_conv snd_conv)
  moreover from t h have "\<exists>r w c. run example_env = (r, w) \<and> ws1 w = Some c
      \<and> sent c = [''connect'', ''disconnect'']"
    by blast
  ultimately show ?thesis
    by blast
qed

end
